theory Spec2Isabelle
  imports Main
begin

section \<open>Python string primitives used by the scripts\<close>

text \<open>
  A Python \<open>str\<close> is modelled as a \<open>string\<close> whose characters are the code points
  below 256.  On that range \<open>str.isspace\<close> holds for the ASCII controls 9 to 13 and 28 to
  31, for the blank, and for the code points 0x85 and 0xA0; \<open>str.lower\<close> moves
  \<open>A\<close> .. \<open>Z\<close> and the Latin-1 capitals 0xC0 .. 0xDE (0xD7 apart) up by 32.
\<close>

definition nl :: string where
  "nl = [CHR 0x0A]"

definition isspace :: "char \<Rightarrow> bool" where
  "isspace c = (c \<in> set [CHR 0x09, CHR 0x0A, CHR 0x0B, CHR 0x0C, CHR 0x0D,
                           CHR 0x1C, CHR 0x1D, CHR 0x1E, CHR 0x1F, CHR 0x20,
                           CHR 0x85, CHR 0xA0])"

definition lstrip :: "string \<Rightarrow> string" where
  "lstrip s = dropWhile isspace s"

definition rstrip :: "string \<Rightarrow> string" where
  "rstrip s = rev (dropWhile isspace (rev s))"

definition strip :: "string \<Rightarrow> string" where
  "strip s = rstrip (lstrip s)"

text \<open>\<open>s.lstrip(chars)\<close>: drop the leading characters that occur in \<open>chars\<close>.\<close>

definition lstrip_chars :: "string \<Rightarrow> string \<Rightarrow> string" where
  "lstrip_chars chars s = dropWhile (\<lambda>c. c \<in> set chars) s"

definition startswith :: "string \<Rightarrow> string \<Rightarrow> bool" where
  "startswith s p = (take (length p) s = p)"

text \<open>\<open>sub in s\<close> on strings: \<open>sub\<close> occurs in \<open>s\<close> as a contiguous block.\<close>

fun contains :: "string \<Rightarrow> string \<Rightarrow> bool" where
  "contains sub [] = (sub = [])"
| "contains sub (c # cs) = (startswith (c # cs) sub \<or> contains sub cs)"

text \<open>\<open>s.replace(" ", "")\<close>: every blank (0x20) is removed.\<close>

definition replace_blank :: "string \<Rightarrow> string" where
  "replace_blank s = filter (\<lambda>c. c \<noteq> CHR '' '') s"

definition lower_char :: "char \<Rightarrow> char" where
  "lower_char c =
     (let n = (of_char c :: nat)
      in if (65 \<le> n \<and> n \<le> 90) \<or> (192 \<le> n \<and> n \<le> 222 \<and> n \<noteq> 215)
         then char_of (n + 32) else c)"

definition lower :: "string \<Rightarrow> string" where
  "lower s = map lower_char s"

text \<open>\<open>str(n)\<close> for a non-negative integer: its decimal digits.\<close>

fun str_nat :: "nat \<Rightarrow> string" where
  "str_nat n =
     (if n < 10 then [char_of (48 + n)]
      else str_nat (n div 10) @ [char_of (48 + n mod 10)])"

declare str_nat.simps [simp del]


section \<open>convert.py: the blocklist document and its parser\<close>

text \<open>
  \<open>self.data\<close> is an \<open>OrderedDict\<close> from category to the list of its entries: an
  association list with distinct keys, in insertion order.
\<close>

type_synonym document = "(string \<times> string list) list"

definition keys :: "document \<Rightarrow> string list" where
  "keys d = map fst d"

definition values_of :: "document \<Rightarrow> string list list" where
  "values_of d = map snd d"

text \<open>\<open>self.data.setdefault(category, [])\<close>: a new key goes to the end, a known key
  keeps its place and its list.\<close>

definition setdefault :: "document \<Rightarrow> string \<Rightarrow> document" where
  "setdefault d k = (if k \<in> set (keys d) then d else d @ [(k, [])])"

text \<open>\<open>self.data[category].append(line)\<close>; a missing key is Python's \<open>KeyError\<close>.\<close>

definition append_entry :: "document \<Rightarrow> string \<Rightarrow> string \<Rightarrow> document option" where
  "append_entry d k x =
     (if k \<in> set (keys d)
      then Some (map (\<lambda>(k', es). if k' = k then (k', es @ [x]) else (k', es)) d)
      else None)"

datatype read_error =
    FileNotFound
  | MissingCategory   \<comment> \<open>\<open>ValueError("Unable to store item without category")\<close>\<close>
  | UnexpectedError   \<comment> \<open>any other exception, here the \<open>KeyError\<close> of the append\<close>

text \<open>The loop of \<open>read\<close> over the lines of the file, with the local \<open>category\<close>
  (\<open>None\<close> before the first header) and \<open>self.data\<close> as loop state.\<close>

fun read_loop :: "string option \<Rightarrow> document \<Rightarrow> string list \<Rightarrow> read_error + document" where
  "read_loop category d [] = Inr d"
| "read_loop category d (raw # rest) =
     (let line = strip raw in
      if startswith line ''#'' then
        (let category' = strip (lstrip_chars ''# '' line)
         in read_loop (Some category') (setdefault d category') rest)
      else if line \<noteq> [] then
        (case category of
           None \<Rightarrow> Inl MissingCategory
         | Some c \<Rightarrow>
             (case append_entry d c line of
                None \<Rightarrow> Inl UnexpectedError
              | Some d' \<Rightarrow> read_loop category d' rest))
      else read_loop category d rest)"

text \<open>\<open>read\<close>: the input file is absent (\<open>None\<close>) or is the list of its lines, each as
  the file iterator yields it.\<close>

definition read :: "string list option \<Rightarrow> read_error + document" where
  "read src = (case src of None \<Rightarrow> Inl FileNotFound | Some ls \<Rightarrow> read_loop None [] ls)"


section \<open>convert.py: line formatters and the blocklist writer\<close>

definition BLOCKLIST_ABOUT :: string where
  "BLOCKLIST_ABOUT = ''This blocklist helps to restrict access to Google and its domains. Contribute at https://github.com/nickspaargaren/no-google''"

definition INPUT_FILE :: string where "INPUT_FILE = ''pihole-google.txt''"
definition PIHOLE_FILE :: string where "PIHOLE_FILE = ''google-domains''"
definition UNBOUND_FILE :: string where "UNBOUND_FILE = ''pihole-google-unbound.conf''"
definition ADGUARD_FILE :: string where "ADGUARD_FILE = ''pihole-google-adguard.txt''"
definition ADGUARD_IMPORTANT_FILE :: string where
  "ADGUARD_IMPORTANT_FILE = ''pihole-google-adguard-important.txt''"
definition CATEGORIES_PATH :: string where "CATEGORIES_PATH = ''categories''"

text \<open>The four lambdas handed to \<open>_write_blocklist\<close>, and the two of \<open>categories\<close>.\<close>

definition pihole_line :: "string \<Rightarrow> string" where
  "pihole_line entry = ''0.0.0.0 '' @ entry @ nl"

definition unbound_line :: "string \<Rightarrow> string" where
  "unbound_line entry = ''local-zone: '' @ [CHR 0x22] @ entry @ [CHR 0x22] @ '' always_refuse'' @ nl"

definition adguard_line :: "string \<Rightarrow> string" where
  "adguard_line entry = ''||'' @ entry @ ''^'' @ nl"

definition adguard_important_line :: "string \<Rightarrow> string" where
  "adguard_important_line entry = ''||'' @ entry @ ''^$important'' @ nl"

definition category_raw_line :: "string \<Rightarrow> string" where
  "category_raw_line entry = ''0.0.0.0 '' @ entry @ nl"

definition category_parsed_line :: "string \<Rightarrow> string" where
  "category_parsed_line entry = entry @ nl"

text \<open>What \<open>_write_blocklist\<close> writes into the opened file: the two header lines, then
  for every item of \<open>self.data\<close> the section marker and the formatted non-empty entries.\<close>

definition section_text :: "(string \<Rightarrow> string) \<Rightarrow> string \<Rightarrow> string list \<Rightarrow> string" where
  "section_text line_formatter category entries =
     ''# '' @ category @ nl @ concat (map line_formatter (filter (\<lambda>entry. entry \<noteq> []) entries))"

definition blocklist_text :: "string \<Rightarrow> document \<Rightarrow> (string \<Rightarrow> string) \<Rightarrow> string" where
  "blocklist_text timestamp d line_formatter =
     ''# '' @ BLOCKLIST_ABOUT @ nl @
     ''# Last updated: '' @ timestamp @ nl @
     concat (map (\<lambda>(category, entries). section_text line_formatter category entries) d)"


section \<open>pathlib, as far as \<open>categories\<close> uses it\<close>

text \<open>
  A \<open>PurePosixPath\<close> is its root (empty, one slash or two slashes) and its parts.
  Parsing splits at the slash and drops the empty and the single-dot components; a name
  that starts with exactly two slashes keeps the two-slash root.  The suffix rules are
  those of Python up to 3.13 (a trailing dot is no suffix).
\<close>

record ppath =
  root :: string
  parts :: "string list"

text \<open>\<open>s.split(sep)\<close> for a one-character separator.\<close>

fun split_at :: "char \<Rightarrow> string \<Rightarrow> string list" where
  "split_at sep [] = [[]]"
| "split_at sep (c # cs) =
     (if c = sep then [] # split_at sep cs
      else (case split_at sep cs of
              [] \<Rightarrow> [[c]]
            | w # ws \<Rightarrow> (c # w) # ws))"

definition splitroot :: "string \<Rightarrow> string" where
  "splitroot p =
     (if \<not> startswith p ''/'' then ''''
      else if startswith p ''//'' \<and> \<not> startswith p ''///'' then ''//''
      else ''/'')"

definition parse_path :: "string \<Rightarrow> ppath" where
  "parse_path p =
     \<lparr>root = splitroot p,
      parts = filter (\<lambda>x. x \<noteq> [] \<and> x \<noteq> ''.'') (split_at (CHR ''/'') p)\<rparr>"

text \<open>\<open>base.joinpath(other)\<close>: a rooted \<open>other\<close> replaces \<open>base\<close>.\<close>

definition joinpath :: "ppath \<Rightarrow> string \<Rightarrow> ppath" where
  "joinpath base other =
     (let q = parse_path other
      in if root q \<noteq> [] then q else \<lparr>root = root base, parts = parts base @ parts q\<rparr>)"

fun join_sep :: "string list \<Rightarrow> string" where
  "join_sep [] = []"
| "join_sep [x] = x"
| "join_sep (x # y # ys) = x @ ''/'' @ join_sep (y # ys)"

definition path_str :: "ppath \<Rightarrow> string" where
  "path_str p =
     (if root p \<noteq> [] then root p @ join_sep (parts p)
      else if parts p = [] then ''.'' else join_sep (parts p))"

definition path_name :: "ppath \<Rightarrow> string" where
  "path_name p = (if parts p = [] then [] else last (parts p))"

text \<open>\<open>name.rfind('.')\<close>: the index of the last dot of the name, if it has one.\<close>

definition rfind_dot :: "string \<Rightarrow> nat option" where
  "rfind_dot name =
     (if CHR ''.'' \<in> set name
      then Some (length name - Suc (length (takeWhile (\<lambda>c. c \<noteq> CHR ''.'') (rev name))))
      else None)"

definition path_suffix :: "ppath \<Rightarrow> string" where
  "path_suffix p =
     (let name = path_name p
      in case rfind_dot name of
           None \<Rightarrow> []
         | Some i \<Rightarrow> if 0 < i \<and> i < length name - 1 then drop i name else [])"

text \<open>\<open>p.with_suffix(suffix)\<close> for a well-formed suffix such as \<open>.txt\<close>; \<open>None\<close> is the
  \<open>ValueError\<close> of a path with an empty name.\<close>

definition with_suffix :: "ppath \<Rightarrow> string \<Rightarrow> ppath option" where
  "with_suffix p suffix =
     (let name = path_name p
      in if name = [] then None
         else let old_suffix = path_suffix p;
                  name' = (if old_suffix = [] then name @ suffix
                           else take (length name - length old_suffix) name @ suffix)
              in Some (p\<lparr>parts := butlast (parts p) @ [name']\<rparr>))"

text \<open>The file names \<open>categories\<close> computes for one category: \<open>text_file\<close> and
  \<open>parsed_file\<close>, or \<open>None\<close> when \<open>with_suffix\<close> raises.\<close>

definition category_slug :: "string \<Rightarrow> string" where
  "category_slug category = lower (replace_blank category)"

definition category_files :: "string \<Rightarrow> (string \<times> string) option" where
  "category_files category =
     (let filename = category_slug category;
          filepath = joinpath (parse_path CATEGORIES_PATH) filename
      in case with_suffix filepath ''.txt'' of
           None \<Rightarrow> None
         | Some text_file \<Rightarrow> Some (path_str text_file, path_str filepath @ ''parsed''))"


section \<open>convert.py: the actions and the dispatcher\<close>

text \<open>
  The world outside the process: the lines of the input file (\<open>None\<close> when it is
  absent), which paths \<open>open(path, "w")\<close> succeeds on, and whether the \<open>mkdir\<close> of the
  categories directory succeeds.  What a run does is the list of its events, in order.
\<close>

record env =
  source :: "string list option"
  writable :: "string \<Rightarrow> bool"
  mkdir_ok :: bool

datatype level = INFO | WARNING | ERROR

datatype diagnostic =
    Usage                       \<comment> \<open>"Subcommand not given or invalid, ..."\<close>
  | InputFileNotFound           \<comment> \<open>"Input file not found: ..."\<close>
  | NoCategory                  \<comment> \<open>"Unable to store item without category"\<close>
  | UnexpectedReadError         \<comment> \<open>"Unexpected error: ..."\<close>
  | WriteFailed string          \<comment> \<open>"IO Error writing file '...': ..."\<close>
  | MkdirFailed                 \<comment> \<open>"Error creating directory '...': ..."\<close>
  | Invoking string             \<comment> \<open>"Invoking subcommand '...'"\<close>
  | InvalidSubcommand string    \<comment> \<open>"Invalid subcommand: ..."\<close>
  | ErrorDuring string          \<comment> \<open>"Error during '...': ..."\<close>

datatype event =
    Wrote string string         \<comment> \<open>a file opened for writing, with everything written to it\<close>
  | Printed string              \<comment> \<open>a line on standard output\<close>
  | Dumped document             \<comment> \<open>the JSON dump of the document on standard output\<close>
  | Logged level diagnostic

text \<open>How a method ends: it returns, it leaves through \<open>sys.exit(1)\<close>, or it raises an
  exception that its caller sees.\<close>

datatype flow = Returned | Exited | Raised

definition write_blocklist ::
  "env \<Rightarrow> string \<Rightarrow> document \<Rightarrow> string \<Rightarrow> (string \<Rightarrow> string) \<Rightarrow> event list \<times> flow" where
  "write_blocklist e timestamp d filename line_formatter =
     (if writable e filename
      then ([Wrote filename (blocklist_text timestamp d line_formatter)], Returned)
      else ([Logged ERROR (WriteFailed filename)], Exited))"

definition pihole :: "env \<Rightarrow> string \<Rightarrow> document \<Rightarrow> event list \<times> flow" where
  "pihole e timestamp d = write_blocklist e timestamp d PIHOLE_FILE pihole_line"

definition unbound :: "env \<Rightarrow> string \<Rightarrow> document \<Rightarrow> event list \<times> flow" where
  "unbound e timestamp d = write_blocklist e timestamp d UNBOUND_FILE unbound_line"

definition adguard :: "env \<Rightarrow> string \<Rightarrow> document \<Rightarrow> event list \<times> flow" where
  "adguard e timestamp d = write_blocklist e timestamp d ADGUARD_FILE adguard_line"

definition adguard_important :: "env \<Rightarrow> string \<Rightarrow> document \<Rightarrow> event list \<times> flow" where
  "adguard_important e timestamp d =
     write_blocklist e timestamp d ADGUARD_IMPORTANT_FILE adguard_important_line"

text \<open>The loop of \<open>categories\<close> over the keys of \<open>self.data\<close>.  Both writes go through
  \<open>_write_blocklist\<close>, which writes the whole document \<open>d\<close>.\<close>

fun categories_loop ::
  "env \<Rightarrow> string \<Rightarrow> document \<Rightarrow> string list \<Rightarrow> event list \<times> flow" where
  "categories_loop e timestamp d [] = ([], Returned)"
| "categories_loop e timestamp d (category # rest) =
     (case category_files category of
        None \<Rightarrow> ([], Raised)
      | Some (text_file, parsed_file) \<Rightarrow>
          (case write_blocklist e timestamp d text_file category_raw_line of
             (ev1, Returned) \<Rightarrow>
               (case write_blocklist e timestamp d parsed_file category_parsed_line of
                  (ev2, Returned) \<Rightarrow>
                    (case categories_loop e timestamp d rest of
                       (ev3, fl) \<Rightarrow> (ev1 @ ev2 @ ev3, fl))
                | (ev2, fl) \<Rightarrow> (ev1 @ ev2, fl))
           | (ev1, fl) \<Rightarrow> (ev1, fl)))"

definition categories :: "env \<Rightarrow> string \<Rightarrow> document \<Rightarrow> event list \<times> flow" where
  "categories e timestamp d =
     (if \<not> mkdir_ok e then ([Logged ERROR MkdirFailed], Returned)
      else categories_loop e timestamp d (keys d))"

text \<open>\<open>duplicates\<close>: \<open>hashes\<close> is a \<open>defaultdict(int)\<close>, an association list in insertion
  order.\<close>

definition incr :: "(string \<times> nat) list \<Rightarrow> string \<Rightarrow> (string \<times> nat) list" where
  "incr hashes entry =
     (if entry \<in> set (map fst hashes)
      then map (\<lambda>(k, n). if k = entry then (k, n + 1) else (k, n)) hashes
      else hashes @ [(entry, 1)])"

definition count_entries :: "string list list \<Rightarrow> (string \<times> nat) list" where
  "count_entries vals = fold (\<lambda>entries hashes. fold (\<lambda>entry h. incr h entry) entries hashes) vals []"

definition duplicate_message :: "string \<Rightarrow> nat \<Rightarrow> string" where
  "duplicate_message entry n =
     ''Domain '' @ entry @ '' found '' @ str_nat n @ '' times, please remove duplicate domains.''"

fun report_loop :: "(string \<times> nat) list \<Rightarrow> bool \<Rightarrow> event list \<times> bool" where
  "report_loop [] duplicates_found = ([], duplicates_found)"
| "report_loop ((entry, n) # rest) duplicates_found =
     (if n > 1
      then (case report_loop rest True of
              (ev, found) \<Rightarrow> (Printed (duplicate_message entry n) # ev, found))
      else report_loop rest duplicates_found)"

definition duplicates :: "env \<Rightarrow> string \<Rightarrow> document \<Rightarrow> event list \<times> flow" where
  "duplicates e timestamp d =
     (let hashes = count_entries (values_of d)
      in case report_loop hashes False of
           (ev, duplicates_found) \<Rightarrow>
             (if \<not> duplicates_found
              then (ev @ [Printed ''No duplicate domains found.''], Returned)
              else (ev, Returned)))"

text \<open>\<open>getattr(converter, action)\<close> for the names the entry point lets through; on any
  other name the model takes the \<open>AttributeError\<close> branch.\<close>

definition getattr_converter ::
  "string \<Rightarrow> (env \<Rightarrow> string \<Rightarrow> document \<Rightarrow> event list \<times> flow) option" where
  "getattr_converter action =
     (if action = ''pihole'' then Some pihole
      else if action = ''unbound'' then Some unbound
      else if action = ''adguard'' then Some adguard
      else if action = ''adguard_important'' then Some adguard_important
      else if action = ''categories'' then Some categories
      else if action = ''duplicates'' then Some duplicates
      else None)"

text \<open>The loop of \<open>run\<close> over the subcommands; the result is the events and the exit
  status of the process.\<close>

fun run_loop :: "env \<Rightarrow> string \<Rightarrow> document \<Rightarrow> string list \<Rightarrow> event list \<times> nat" where
  "run_loop e timestamp d [] = ([], 0)"
| "run_loop e timestamp d (action # rest) =
     (case getattr_converter action of
        None \<Rightarrow> ([Logged INFO (Invoking action), Logged ERROR (InvalidSubcommand action)], 1)
      | Some method \<Rightarrow>
          (case method e timestamp d of
             (ev, Returned) \<Rightarrow>
               (case run_loop e timestamp d rest of
                  (ev', st) \<Rightarrow> (Logged INFO (Invoking action) # ev @ ev', st))
           | (ev, Exited) \<Rightarrow> (Logged INFO (Invoking action) # ev, 1)
           | (ev, Raised) \<Rightarrow>
               (Logged INFO (Invoking action) # ev @ [Logged ERROR (ErrorDuring action)], 1)))"

definition read_diagnostic :: "read_error \<Rightarrow> diagnostic" where
  "read_diagnostic err =
     (case err of
        FileNotFound \<Rightarrow> InputFileNotFound
      | MissingCategory \<Rightarrow> NoCategory
      | UnexpectedError \<Rightarrow> UnexpectedReadError)"

definition run :: "env \<Rightarrow> string \<Rightarrow> string \<Rightarrow> string list \<Rightarrow> event list \<times> nat" where
  "run e timestamp action action_candidates =
     (case read (source e) of
        Inl err \<Rightarrow> ([Logged ERROR (read_diagnostic err)], 1)
      | Inr d \<Rightarrow>
          if action = ''json'' then ([Dumped d], 0)
          else run_loop e timestamp d
                 (if action = ''all'' then action_candidates else [action]))"

definition action_candidates :: "string list" where
  "action_candidates = [''pihole'', ''unbound'', ''adguard'', ''adguard_important'', ''categories'']"

definition special_candidates :: "string list" where
  "special_candidates = [''all'', ''duplicates'', ''json'']"

text \<open>The entry point: \<open>argv1\<close> is \<open>sys.argv[1]\<close>, \<open>None\<close> when no subcommand is given;
  \<open>timestamp\<close> is the date string the converter computes once when it is created.\<close>

definition main :: "env \<Rightarrow> string \<Rightarrow> string option \<Rightarrow> event list \<times> nat" where
  "main e timestamp argv1 =
     (case argv1 of
        None \<Rightarrow> ([Logged ERROR Usage], 1)
      | Some subcommand \<Rightarrow>
          if subcommand \<notin> set (action_candidates @ special_candidates)
          then ([Logged ERROR Usage], 1)
          else run e timestamp subcommand action_candidates)"

text \<open>The files a run wrote, in order.\<close>

fun writes :: "event list \<Rightarrow> (string \<times> string) list" where
  "writes [] = []"
| "writes (Wrote path text # evs) = (path, text) # writes evs"
| "writes (_ # evs) = writes evs"


section \<open>scripts/tests.py: the strict checks\<close>

text \<open>
  Both checks read the file at \<open>filepath\<close> (\<open>None\<close> when it is absent) and end either
  normally or with an exception; the \<open>AssertionError\<close> carries what its message reports.
\<close>

datatype violation =
    DuplicateDomain string nat         \<comment> \<open>the line and how often it occurred\<close>
  | ForbiddenDomain string nat string  \<comment> \<open>the forbidden substring, the line number, the line\<close>

datatype exn = FileNotFoundError | AssertionError violation

definition quoted :: "string \<Rightarrow> string" where
  "quoted s = [CHR 0x27] @ s @ [CHR 0x27]"

definition violation_message :: "string \<Rightarrow> violation \<Rightarrow> string" where
  "violation_message filepath v =
     (case v of
        DuplicateDomain domain n \<Rightarrow>
          ''Duplicate domain found: '' @ quoted domain @ '' occurred '' @ str_nat n @
          '' times in '' @ filepath @ ''. Please remove duplicate domains.''
      | ForbiddenDomain forbidden line_number domain \<Rightarrow>
          ''Forbidden domain '' @ quoted forbidden @ '' found on line '' @ str_nat line_number @
          '': '' @ quoted domain @ '' in '' @ filepath @ ''. Please remove regex domains.'')"

text \<open>The first loop of \<open>check_duplicates\<close>: \<open>counts\<close> is a \<open>dict\<close> in insertion order.\<close>

fun count_lines :: "(string \<times> nat) list \<Rightarrow> string list \<Rightarrow> (string \<times> nat) list" where
  "count_lines counts [] = counts"
| "count_lines counts (line # rest) =
     (let domain = strip line
      in if domain \<noteq> []
         then (if domain \<in> set (map fst counts)
               then count_lines (map (\<lambda>(k, n). if k = domain then (k, n + 1) else (k, n)) counts) rest
               else count_lines (counts @ [(domain, 1)]) rest)
         else count_lines counts rest)"

text \<open>The second loop: the first item of \<open>counts\<close> with a count above one raises.\<close>

fun first_duplicate :: "(string \<times> nat) list \<Rightarrow> violation option" where
  "first_duplicate [] = None"
| "first_duplicate ((domain, n) # rest) =
     (if n > 1 then Some (DuplicateDomain domain n) else first_duplicate rest)"

definition check_duplicates ::
  "string \<Rightarrow> string list option \<Rightarrow> (level \<times> string) list \<times> (exn + unit)" where
  "check_duplicates filepath file =
     (case file of
        None \<Rightarrow> ([(ERROR, ''File not found: '' @ filepath)], Inl FileNotFoundError)
      | Some ls \<Rightarrow>
          (case first_duplicate (count_lines [] ls) of
             Some v \<Rightarrow> ([], Inl (AssertionError v))
           | None \<Rightarrow> ([(INFO, ''No duplicate domains found.'')], Inr ())))"

text \<open>The inner loop of \<open>check_regex_domains\<close> over the forbidden substrings.\<close>

fun first_forbidden :: "string list \<Rightarrow> string \<Rightarrow> string option" where
  "first_forbidden [] domain = None"
| "first_forbidden (forbidden # rest) domain =
     (if contains forbidden domain then Some forbidden else first_forbidden rest domain)"

text \<open>The outer loop, \<open>enumerate(f, 1)\<close>: \<open>line_number\<close> is the number of the head line.\<close>

fun regex_loop :: "nat \<Rightarrow> string list \<Rightarrow> string list \<Rightarrow> violation option" where
  "regex_loop line_number forbidden_domains [] = None"
| "regex_loop line_number forbidden_domains (line # rest) =
     (let domain = strip line
      in if domain \<noteq> []
         then (case first_forbidden forbidden_domains domain of
                 Some forbidden \<Rightarrow> Some (ForbiddenDomain forbidden line_number domain)
               | None \<Rightarrow> regex_loop (line_number + 1) forbidden_domains rest)
         else regex_loop (line_number + 1) forbidden_domains rest)"

text \<open>The \<open>AssertionError\<close> is raised inside the \<open>try\<close>, so the last handler logs it
  before it is raised again.\<close>

definition check_regex_domains ::
  "string \<Rightarrow> string list option \<Rightarrow> string list \<Rightarrow> (level \<times> string) list \<times> (exn + unit)" where
  "check_regex_domains filepath file forbidden_domains =
     (case file of
        None \<Rightarrow> ([(ERROR, ''File not found: '' @ filepath)], Inl FileNotFoundError)
      | Some ls \<Rightarrow>
          (case regex_loop 1 forbidden_domains ls of
             Some v \<Rightarrow>
               ([(ERROR, ''Unexpected error: '' @ violation_message filepath v)],
                Inl (AssertionError v))
           | None \<Rightarrow> ([(INFO, ''No forbidden domains found in '' @ filepath @ ''.'')], Inr ())))"

text \<open>The list \<open>main\<close> of tests.py configures for \<open>--type regex\<close>.\<close>

definition forbidden_domains :: "string list" where
  "forbidden_domains = [''.l.google.com'', ''.googlevideo.com'']"

datatype test_type = Type_duplicates | Type_regex

definition tests_main ::
  "test_type option \<Rightarrow> string \<Rightarrow> string list option \<Rightarrow> (level \<times> string) list \<times> (exn + unit)" where
  "tests_main type filepath file =
     (case type of
        Some Type_duplicates \<Rightarrow> check_duplicates filepath file
      | Some Type_regex \<Rightarrow> check_regex_domains filepath file forbidden_domains
      | None \<Rightarrow>
          ([(WARNING, ''No test type specified.  Please specify --type duplicates or --type regex'')],
           Inr ()))"


section \<open>scripts/dnscheck.py\<close>

text \<open>What \<open>resolver.resolve(domain, "NS")\<close> does: it returns an answer or raises one of
  the exceptions the handlers of \<open>check_domain\<close> tell apart; the two catch-all handlers
  put the text of the exception into the log.\<close>

datatype resolve_result =
    Answer
  | NXDOMAIN
  | NoNameservers
  | NoAnswer
  | Timeout
  | DNSException string     \<comment> \<open>any other \<open>dns.exception.DNSException\<close>\<close>
  | OtherException string   \<comment> \<open>any other \<open>Exception\<close>\<close>

text \<open>\<open>check_domain\<close>: \<open>True\<close> says the domain has no NS records.  \<open>reply\<close> is what
  the call of \<open>resolve\<close> does on the resolver in use, the one passed in or the default
  one made on the spot.\<close>

definition check_domain :: "resolve_result \<Rightarrow> string \<Rightarrow> (level \<times> string) list \<times> bool" where
  "check_domain reply domain =
     (case reply of
        Answer \<Rightarrow> ([], False)
      | NXDOMAIN \<Rightarrow> ([], True)
      | NoNameservers \<Rightarrow>
          ([(WARNING, ''No name servers found for '' @ domain @ ''.  Treating as if NS records exist.'')],
           False)
      | NoAnswer \<Rightarrow>
          ([(WARNING, ''No NS answer for '' @ domain @ ''. Treating as if NS records exist.'')], False)
      | Timeout \<Rightarrow>
          ([(WARNING, ''Timeout resolving '' @ domain @ ''. Treating as if NS records exist.'')], False)
      | DNSException msg \<Rightarrow>
          ([(ERROR, ''DNS Exception for '' @ domain @ '': '' @ msg @ ''. Treating as if NS records exist.'')],
           False)
      | OtherException msg \<Rightarrow>
          ([(ERROR, ''Unexpected error resolving '' @ domain @ '': '' @ msg @
                    ''.  Treating as if NS records exist.'')],
           False))"

text \<open>
  The loop of \<open>main\<close>.  The answers of the resolver can change while the script runs:
  \<open>resolver i domain\<close> is what resolving \<open>domain\<close> does while line \<open>i\<close> of the file is
  handled.  The loop state is \<open>found_domains\<close> and \<open>domains_with_ns_records\<close>.
\<close>

fun dns_loop ::
  "(nat \<Rightarrow> string \<Rightarrow> resolve_result) \<Rightarrow> nat \<Rightarrow> nat \<Rightarrow> string list \<Rightarrow> string list \<Rightarrow>
   (level \<times> string) list \<times> nat \<times> string list" where
  "dns_loop resolver i found_domains kept [] = ([], found_domains, kept)"
| "dns_loop resolver i found_domains kept (raw # rest) =
     (let line = strip raw
      in if line \<noteq> [] \<and> \<not> startswith line ''#''
         then (case check_domain (resolver i line) line of
                 (lg, True) \<Rightarrow>
                   (case dns_loop resolver (i + 1) (found_domains + 1) kept rest of
                      (lg', r) \<Rightarrow>
                        (lg @ [(INFO, ''Domain without NS records: '' @ line)] @ lg', r))
               | (lg, False) \<Rightarrow>
                   (case dns_loop resolver (i + 1) found_domains (kept @ [line @ nl]) rest of
                      (lg', r) \<Rightarrow> (lg @ lg', r)))
         else dns_loop resolver (i + 1) found_domains (kept @ [line @ nl]) rest)"

text \<open>\<open>main\<close>: the result is the log and what the input file holds afterwards, as the list
  handed to \<open>writelines\<close>, or \<open>None\<close> when the file is not rewritten.  The log leaves
  out the text of an I/O exception.\<close>

definition dns_input_file :: string where
  "dns_input_file = ''../pihole-google.txt''"

definition dns_main ::
  "(nat \<Rightarrow> string \<Rightarrow> resolve_result) \<Rightarrow> string list option \<Rightarrow> bool \<Rightarrow> (level \<times> string) list \<times> string list option" where
  "dns_main resolver file write_ok =
     (case file of
        None \<Rightarrow>
          ([(ERROR, ''Error: Input file '' @ quoted dns_input_file @ '' not found.'')], None)
      | Some ls \<Rightarrow>
          (case dns_loop resolver 0 0 [] ls of
             (lg, found_domains, domains_with_ns_records) \<Rightarrow>
               if write_ok
               then (lg @ [(INFO, ''Processed domains. Found '' @ str_nat found_domains @
                                  '' domains without NS records.'')],
                     Some domains_with_ns_records)
               else (lg @ [(ERROR, ''IO Error writing to file '' @ quoted dns_input_file)], None)))"


section \<open>scripts/domain-check-api.py\<close>

text \<open>
  What \<open>whois.whois(domain)\<close> does: it returns an entry or raises.  Of the entry the
  script reads \<open>domain_name\<close> (nothing, a string or a list), \<open>org\<close> and \<open>name_servers\<close>
  (a list of strings, or something else).
\<close>

datatype domain_name_field = DN_None | DN_Str string | DN_List "string list"

record whois_entry =
  domain_name :: domain_name_field
  org :: "string option"
  name_servers :: "string list option"

datatype whois_result =
    Entry whois_entry
  | PywhoisError
  | WhoisCommandFailed
  | UnknownTld
  | FailedParsingWhoisOutput
  | UnknownDateFormat
  | ConnectionRefusedError
  | TimeoutError
  | OtherError

text \<open>What \<open>is_registered\<close> returns: the list of names, organisation and name servers,
  \<open>False\<close>, or \<open>None\<close> for a temporary error.\<close>

datatype registered = Info "string list" "string option" "string list" | IsFalse | IsNone

datatype whois_event =
    Slept nat                      \<comment> \<open>\<open>time.sleep(n)\<close>\<close>
  | Queried string                 \<comment> \<open>a call of \<open>whois.whois\<close>\<close>
  | Warned string                  \<comment> \<open>a warning (or logged exception) about this domain\<close>
  | Reported string registered     \<comment> \<open>the line \<open>print(f"{domain}: {result}")\<close>\<close>
  | RetryHeader                    \<comment> \<open>the line announcing the retry pass\<close>

definition truthy :: "domain_name_field \<Rightarrow> bool" where
  "truthy dn = (case dn of DN_None \<Rightarrow> False | DN_Str s \<Rightarrow> s \<noteq> [] | DN_List l \<Rightarrow> l \<noteq> [])"

definition is_registered :: "whois_result \<Rightarrow> string \<Rightarrow> whois_event list \<times> registered" where
  "is_registered reply domain =
     (case reply of
        Entry w \<Rightarrow>
          if truthy (domain_name w)
          then (let domain_names = (case domain_name w of DN_List l \<Rightarrow> l | DN_Str s \<Rightarrow> [s] | DN_None \<Rightarrow> []);
                    name_servers = (case name_servers w of Some l \<Rightarrow> map lower l | None \<Rightarrow> [])
                in ([Slept 1, Queried domain], Info domain_names (org w) name_servers))
          else ([Slept 1, Queried domain], IsFalse)
      | PywhoisError \<Rightarrow> ([Slept 1, Queried domain, Warned domain], IsFalse)
      | WhoisCommandFailed \<Rightarrow> ([Slept 1, Queried domain, Warned domain], IsFalse)
      | UnknownTld \<Rightarrow> ([Slept 1, Queried domain, Warned domain], IsFalse)
      | FailedParsingWhoisOutput \<Rightarrow> ([Slept 1, Queried domain, Warned domain], IsFalse)
      | UnknownDateFormat \<Rightarrow> ([Slept 1, Queried domain, Warned domain], IsFalse)
      | ConnectionRefusedError \<Rightarrow> ([Slept 1, Queried domain, Warned domain, Slept 30], IsNone)
      | TimeoutError \<Rightarrow> ([Slept 1, Queried domain, Warned domain, Slept 10], IsNone)
      | OtherError \<Rightarrow> ([Slept 1, Queried domain, Warned domain], IsFalse))"

text \<open>\<open>remove_duplicates\<close>: \<open>list(dict.fromkeys(mylist))\<close> keeps the first occurrence of
  every element, in order.\<close>

fun remove_duplicates :: "string list \<Rightarrow> string list" where
  "remove_duplicates [] = []"
| "remove_duplicates (x # xs) = x # remove_duplicates (filter (\<lambda>y. y \<noteq> x) xs)"

text \<open>
  The WHOIS service can answer the same question differently at different times:
  \<open>service n\<close> is its answer to the query made after \<open>n\<close> earlier queries of the run.
  The first loop of \<open>main\<close> has the number of queries so far and \<open>retry_domains\<close> as state.
\<close>

fun main_pass ::
  "(nat \<Rightarrow> string \<Rightarrow> whois_result) \<Rightarrow> nat \<Rightarrow> string list \<Rightarrow> string list \<Rightarrow>
   whois_event list \<times> string list" where
  "main_pass service n retry_domains [] = ([], retry_domains)"
| "main_pass service n retry_domains (domain # rest) =
     (case is_registered (service n domain) domain of
        (ev, IsNone) \<Rightarrow>
          (case main_pass service (n + 1) (retry_domains @ [domain]) rest of
             (ev', r) \<Rightarrow> (ev @ ev', r))
      | (ev, result) \<Rightarrow>
          (case main_pass service (n + 1) retry_domains rest of
             (ev', r) \<Rightarrow> (ev @ [Reported domain result] @ ev', r)))"

fun retry_pass :: "(nat \<Rightarrow> string \<Rightarrow> whois_result) \<Rightarrow> nat \<Rightarrow> string list \<Rightarrow> whois_event list" where
  "retry_pass service n [] = []"
| "retry_pass service n (domain # rest) =
     (case is_registered (service n domain) domain of
        (ev, result) \<Rightarrow> ev @ [Reported domain result] @ retry_pass service (n + 1) rest)"

text \<open>\<open>main\<close>, from the list that \<open>get_domains\<close> yields; the result is the events of the
  first loop and those of the retry block.\<close>

definition whois_main ::
  "(nat \<Rightarrow> string \<Rightarrow> whois_result) \<Rightarrow> string list \<Rightarrow> whois_event list \<times> whois_event list" where
  "whois_main service yielded =
     (let domains = remove_duplicates yielded
      in case main_pass service 0 [] domains of
           (ev, retry_domains) \<Rightarrow>
             (ev, if retry_domains \<noteq> []
                  then RetryHeader # retry_pass service (length domains) retry_domains
                  else []))"

fun queries :: "whois_event list \<Rightarrow> string list" where
  "queries [] = []"
| "queries (Queried domain # evs) = domain # queries evs"
| "queries (_ # evs) = queries evs"


section \<open>The notions the properties are stated with\<close>

text \<open>A line of the source file is a category header, a domain line or blank.\<close>

definition is_header :: "string \<Rightarrow> bool" where
  "is_header raw = startswith (strip raw) ''#''"

definition is_domain_line :: "string \<Rightarrow> bool" where
  "is_domain_line raw = (strip raw \<noteq> [] \<and> \<not> startswith (strip raw) ''#'')"

definition header_name :: "string \<Rightarrow> string" where
  "header_name raw = strip (lstrip_chars ''# '' (strip raw))"

text \<open>The elements of a list in the order of their first occurrence.\<close>

fun first_seen :: "'a list \<Rightarrow> 'a list" where
  "first_seen [] = []"
| "first_seen (x # xs) = x # first_seen (filter (\<lambda>y. y \<noteq> x) xs)"

text \<open>Some domain line comes before every header of the file.\<close>

fun domain_before_header :: "string list \<Rightarrow> bool" where
  "domain_before_header [] = False"
| "domain_before_header (raw # rest) =
     (if is_header raw then False
      else if is_domain_line raw then True
      else domain_before_header rest)"

text \<open>The categories of a source file in first-seen order, and the domains of a category
  in source order: every domain line goes with the header that was the last one before it.\<close>

definition source_categories :: "string list \<Rightarrow> string list" where
  "source_categories ls = first_seen (map header_name (filter is_header ls))"

fun attributed :: "string option \<Rightarrow> string list \<Rightarrow> (string option \<times> string) list" where
  "attributed current [] = []"
| "attributed current (raw # rest) =
     (if is_header raw then attributed (Some (header_name raw)) rest
      else if is_domain_line raw then (current, strip raw) # attributed current rest
      else attributed current rest)"

definition attributed_to :: "string \<Rightarrow> (string option \<times> string) list \<Rightarrow> string list" where
  "attributed_to category xs =
     map snd (filter (\<lambda>(current, domain). current = Some category) xs)"

definition source_domains :: "string list \<Rightarrow> string \<Rightarrow> string list" where
  "source_domains ls category = attributed_to category (attributed None ls)"

text \<open>The entries a document holds under a key, none for a key it does not have.\<close>

definition entries_of :: "document \<Rightarrow> string \<Rightarrow> string list" where
  "entries_of d c = (case map_of d c of Some es \<Rightarrow> es | None \<Rightarrow> [])"

text \<open>The text of an emitted file as the source file determines it.\<close>

definition expected_text :: "string \<Rightarrow> (string \<Rightarrow> string) \<Rightarrow> string list \<Rightarrow> string" where
  "expected_text timestamp line_formatter ls =
     ''# '' @ BLOCKLIST_ABOUT @ nl @
     ''# Last updated: '' @ timestamp @ nl @
     concat (map (\<lambda>category. ''# '' @ category @ nl @
                    concat (map line_formatter (source_domains ls category)))
                 (source_categories ls))"

text \<open>The formatter that the text of an output file is made with, as its path tells:
  the four fixed file names, and for the per-category files the parsed flavour (the path
  ends in \<open>d\<close>) and the raw flavour.\<close>

definition formatter_for :: "string \<Rightarrow> (string \<Rightarrow> string)" where
  "formatter_for path =
     (if path = PIHOLE_FILE then pihole_line
      else if path = UNBOUND_FILE then unbound_line
      else if path = ADGUARD_FILE then adguard_line
      else if path = ADGUARD_IMPORTANT_FILE then adguard_important_line
      else if path \<noteq> [] \<and> last path = CHR ''d'' then category_parsed_line
      else category_raw_line)"

text \<open>Every file among the events holds the text of the document \<open>d\<close> in the format
  of its path.\<close>

definition stamped :: "string \<Rightarrow> document \<Rightarrow> event list \<Rightarrow> bool" where
  "stamped ts d evs = (\<forall>(p, t) \<in> set (writes evs). t = blocklist_text ts d (formatter_for p))"

text \<open>The domain lines of a file, stripped, and all its non-blank lines, stripped.\<close>

definition domain_lines :: "string list \<Rightarrow> string list" where
  "domain_lines ls = map strip (filter is_domain_line ls)"

definition nonblank_lines :: "string list \<Rightarrow> string list" where
  "nonblank_lines ls = filter (\<lambda>line. line \<noteq> []) (map strip ls)"

text \<open>A line at which the forbidden-pattern check raises: it is not blank and holds one
  of the forbidden substrings.\<close>

definition offending :: "string list \<Rightarrow> string \<Rightarrow> bool" where
  "offending fs line = (strip line \<noteq> [] \<and> first_forbidden fs (strip line) \<noteq> None)"

text \<open>All domains of a document, over all categories.\<close>

definition all_domains :: "document \<Rightarrow> string list" where
  "all_domains d = concat (values_of d)"

text \<open>The lines the NS check drops: the domain lines whose lookup ends with NXDOMAIN.\<close>

definition dropped :: "(nat \<Rightarrow> string \<Rightarrow> resolve_result) \<Rightarrow> nat \<times> string \<Rightarrow> bool" where
  "dropped resolver p = (is_domain_line (snd p) \<and> resolver (fst p) (strip (snd p)) = NXDOMAIN)"

text \<open>The transient failures of a WHOIS lookup, the other failures, and the domains of
  a list whose lookup in the first pass failed transiently.\<close>

definition transient :: "whois_result \<Rightarrow> bool" where
  "transient reply = (reply = ConnectionRefusedError \<or> reply = TimeoutError)"

definition lookup_failed :: "whois_result \<Rightarrow> bool" where
  "lookup_failed reply = (case reply of Entry w \<Rightarrow> False | _ \<Rightarrow> True)"

text \<open>The report lines among the events of the WHOIS script, in order.\<close>

fun reports :: "whois_event list \<Rightarrow> (string \<times> registered) list" where
  "reports [] = []"
| "reports (Reported domain result # evs) = (domain, result) # reports evs"
| "reports (_ # evs) = reports evs"

definition failed_subset :: "(nat \<Rightarrow> string \<Rightarrow> whois_result) \<Rightarrow> string list \<Rightarrow> string list" where
  "failed_subset service ds =
     map snd (filter (\<lambda>(n, domain). transient (service n domain)) (enumerate 0 ds))"


section \<open>Facts about the parser\<close>


lemma first_seen_filter: "first_seen (filter P xs) = filter P (first_seen xs)"
proof (induction xs rule: first_seen.induct)
  case 1
  then show ?case by simp
next
  case (2 x xs)
  show ?case
  proof (cases "P x")
    case True
    have "filter (\<lambda>y. y \<noteq> x) (filter P xs) = filter P (filter (\<lambda>y. y \<noteq> x) xs)"
      by (simp add: conj_commute)
    with True 2 show ?thesis by simp
  next
    case False
    have "filter P (filter (\<lambda>y. y \<noteq> x) xs) = filter P xs"
      using False by (auto intro: filter_cong)
    with False 2 show ?thesis by simp
  qed
qed

lemma set_first_seen [simp]: "set (first_seen xs) = set xs"
  by (induction xs rule: first_seen.induct) auto

lemma distinct_first_seen [simp]: "distinct (first_seen xs)"
  by (induction xs rule: first_seen.induct) auto

lemma keys_setdefault:
  "keys (setdefault d k) = (if k \<in> set (keys d) then keys d else keys d @ [k])"
  by (simp add: setdefault_def keys_def)

lemma map_of_setdefault:
  "map_of (setdefault d k) c = (if k \<notin> set (keys d) \<and> c = k then Some [] else map_of d c)"
proof (cases "k \<in> set (keys d)")
  case True
  then show ?thesis by (simp add: setdefault_def)
next
  case False
  then have "map_of d k = None"
    by (simp add: keys_def map_of_eq_None_iff)
  with False show ?thesis
    by (auto simp: setdefault_def map_add_def split: option.splits)
qed

lemma keys_append_entry:
  "append_entry d k x = Some d' \<Longrightarrow> keys d' = keys d"
  by (auto simp: append_entry_def keys_def split: if_splits)

lemma map_of_map_upd:
  "map_of (map (\<lambda>(k', es). if k' = k then (k', es @ [x]) else (k', es)) d) c =
     (if c = k then map_option (\<lambda>es. es @ [x]) (map_of d c) else map_of d c)"
  by (induction d) auto

lemma map_of_append_entry:
  "append_entry d k x = Some d' \<Longrightarrow>
   map_of d' c = (if c = k then map_option (\<lambda>es. es @ [x]) (map_of d c) else map_of d c)"
  by (auto simp: append_entry_def map_of_map_upd split: if_splits)

lemma append_entry_Some:
  "k \<in> set (keys d) \<Longrightarrow> \<exists>d'. append_entry d k x = Some d'"
  by (simp add: append_entry_def)

lemma ent_of_member: "distinct (keys d) \<Longrightarrow> (k, v) \<in> set d \<Longrightarrow> entries_of d k = v"
  by (simp add: entries_of_def keys_def)

lemma document_as_map:
  assumes "distinct (keys d)"
  shows "d = map (\<lambda>c. (c, entries_of d c)) (keys d)"
proof -
  have "map (\<lambda>p. (fst p, entries_of d (fst p))) d = d"
    by (rule map_idI) (auto simp: ent_of_member [OF assms])
  then show ?thesis
    by (simp add: keys_def comp_def)
qed

lemma ent_setdefault: "entries_of (setdefault d k) c = entries_of d c"
proof (cases "k \<notin> set (keys d) \<and> c = k")
  case True
  then have "map_of d c = None"
    by (simp add: keys_def map_of_eq_None_iff)
  with True show ?thesis
    by (simp add: entries_of_def map_of_setdefault)
next
  case False
  then show ?thesis
    by (auto simp: entries_of_def map_of_setdefault)
qed

lemma ent_append_entry:
  assumes "append_entry d k x = Some d'"
  shows "entries_of d' c = entries_of d c @ (if c = k then [x] else [])"
proof (cases "c = k")
  case True
  from assms have "k \<in> set (keys d)"
    by (auto simp: append_entry_def split: if_splits)
  then obtain es where "map_of d k = Some es"
    by (cases "map_of d k") (auto simp: keys_def map_of_eq_None_iff)
  with True show ?thesis
    by (simp add: entries_of_def map_of_append_entry [OF assms])
next
  case False
  then show ?thesis
    by (simp add: entries_of_def map_of_append_entry [OF assms])
qed

lemma read_loop_closed_form:
  assumes "distinct (keys d)"
    and "\<And>c. cat = Some c \<Longrightarrow> c \<in> set (keys d)"
    and "cat = None \<Longrightarrow> \<not> domain_before_header ls"
  shows "read_loop cat d ls =
         Inr (map (\<lambda>c. (c, entries_of d c @ attributed_to c (attributed cat ls)))
                (keys d @ first_seen (filter (\<lambda>h. h \<notin> set (keys d))
                                             (map header_name (filter is_header ls)))))"
  using assms
proof (induction ls arbitrary: cat d)
  case Nil
  then show ?case
    using document_as_map [of d] by (simp add: attributed_to_def)
next
  case (Cons raw rest)
  show ?case
  proof (cases "is_header raw")
    case True
    let ?k = "header_name raw"
    let ?d1 = "setdefault d ?k"
    have step: "read_loop cat d (raw # rest) = read_loop (Some ?k) ?d1 rest"
      using True by (simp add: is_header_def header_name_def Let_def)
    have d1: "distinct (keys ?d1)"
      using Cons.prems(1) by (simp add: keys_setdefault)
    have k1: "\<And>c. Some ?k = Some c \<Longrightarrow> c \<in> set (keys ?d1)"
      by (auto simp: keys_setdefault)
    have ih: "read_loop (Some ?k) ?d1 rest =
         Inr (map (\<lambda>c. (c, entries_of ?d1 c @ attributed_to c (attributed (Some ?k) rest)))
                (keys ?d1 @ first_seen (filter (\<lambda>h. h \<notin> set (keys ?d1))
                                             (map header_name (filter is_header rest)))))"
      by (rule Cons.IH [OF d1 k1]) simp_all
    have e1: "\<And>c. entries_of ?d1 c = entries_of d c"
      by (rule ent_setdefault)
    have att: "attributed cat (raw # rest) = attributed (Some ?k) rest"
      using True by simp
    show ?thesis
    proof (cases "?k \<in> set (keys d)")
      case in_d: True
      then show ?thesis
        unfolding step ih using True by (simp add: e1 att keys_setdefault del: read_loop.simps)
    next
      case False
      have "filter (\<lambda>h. h \<notin> set (keys d) \<and> h \<noteq> ?k) (map header_name (filter is_header rest))
            = filter (\<lambda>y. y \<noteq> ?k) (filter (\<lambda>h. h \<notin> set (keys d)) (map header_name (filter is_header rest)))"
        by (simp add: conj_commute)
      then show ?thesis
        unfolding step ih using True False by (simp add: e1 att keys_setdefault conj_commute del: read_loop.simps)
    qed
  next
    case not_header: False
    show ?thesis
    proof (cases "is_domain_line raw")
      case True
      then obtain c0 where c0: "cat = Some c0"
        using Cons.prems(3) not_header by (cases cat) auto
      then have in_d: "c0 \<in> set (keys d)"
        using Cons.prems(2) by simp
      then obtain d1 where d1: "append_entry d c0 (strip raw) = Some d1"
        using append_entry_Some by blast
      have step: "read_loop cat d (raw # rest) = read_loop cat d1 rest"
        using True c0 d1 by (simp add: is_domain_line_def Let_def)
      have kd1: "keys d1 = keys d"
        using d1 by (rule keys_append_entry)
      have ih: "read_loop cat d1 rest =
         Inr (map (\<lambda>c. (c, entries_of d1 c @ attributed_to c (attributed cat rest)))
                (keys d1 @ first_seen (filter (\<lambda>h. h \<notin> set (keys d1))
                                             (map header_name (filter is_header rest)))))"
        using Cons.prems(1,2) c0 by (intro Cons.IH) (simp_all add: kd1)
      have e1: "\<And>c. entries_of d1 c = entries_of d c @ (if c = c0 then [strip raw] else [])"
        by (rule ent_append_entry [OF d1])
      have e4: "\<And>c. attributed_to c (attributed cat (raw # rest)) = (if c = c0 then [strip raw] else []) @ attributed_to c (attributed cat rest)"
        using True not_header c0 by (auto simp: attributed_to_def)
      show ?thesis
        unfolding step ih using not_header by (simp add: kd1 e1 e4 del: read_loop.simps attributed.simps)
    next
      case False
      have step: "read_loop cat d (raw # rest) = read_loop cat d rest"
        using False not_header by (auto simp: is_domain_line_def is_header_def Let_def)
      have "read_loop cat d rest =
         Inr (map (\<lambda>c. (c, entries_of d c @ attributed_to c (attributed cat rest)))
                (keys d @ first_seen (filter (\<lambda>h. h \<notin> set (keys d))
                                             (map header_name (filter is_header rest)))))"
        using Cons.prems False not_header by (intro Cons.IH) simp_all
      then show ?thesis
        unfolding step using False not_header by (simp del: read_loop.simps)
    qed
  qed
qed


lemma domain_before_header_iff:
  "domain_before_header ls \<longleftrightarrow>
   (\<exists>i<length ls. is_domain_line (ls ! i) \<and> (\<forall>j<i. \<not> is_header (ls ! j)))"
proof (induction ls)
  case Nil
  then show ?case by simp
next
  case (Cons raw rest)
  show ?case
  proof (cases "is_header raw")
    case True
    have "\<not> (\<exists>i<length (raw # rest). is_domain_line ((raw # rest) ! i) \<and> (\<forall>j<i. \<not> is_header ((raw # rest) ! j)))"
    proof
      assume "\<exists>i<length (raw # rest). is_domain_line ((raw # rest) ! i) \<and> (\<forall>j<i. \<not> is_header ((raw # rest) ! j))"
      then obtain i where i: "is_domain_line ((raw # rest) ! i)" "\<forall>j<i. \<not> is_header ((raw # rest) ! j)"
        by blast
      show False
      proof (cases i)
        case 0
        with i(1) True show False by (simp add: is_domain_line_def is_header_def)
      next
        case (Suc n)
        with i(2) have "\<not> is_header ((raw # rest) ! 0)" by blast
        with True show False by simp
      qed
    qed
    with True show ?thesis by simp
  next
    case False
    show ?thesis
    proof (cases "is_domain_line raw")
      case True
      then have "\<exists>i<length (raw # rest). is_domain_line ((raw # rest) ! i) \<and> (\<forall>j<i. \<not> is_header ((raw # rest) ! j))"
        by (intro exI [of _ 0]) simp
      with True False show ?thesis by simp
    next
      case nd: False
      have "(\<exists>i<length (raw # rest). is_domain_line ((raw # rest) ! i) \<and> (\<forall>j<i. \<not> is_header ((raw # rest) ! j)))
            \<longleftrightarrow> (\<exists>i<length rest. is_domain_line (rest ! i) \<and> (\<forall>j<i. \<not> is_header (rest ! j)))"
        (is "?L \<longleftrightarrow> ?R")
      proof
        assume ?L
        then obtain i where i: "i < length (raw # rest)" "is_domain_line ((raw # rest) ! i)"
          "\<forall>j<i. \<not> is_header ((raw # rest) ! j)" by blast
        with nd obtain n where n: "i = Suc n" by (cases i) auto
        have "\<forall>j<n. \<not> is_header (rest ! j)"
        proof (intro allI impI)
          fix j assume "j < n"
          then have "Suc j < i" using n by simp
          with i(3) have "\<not> is_header ((raw # rest) ! Suc j)" by blast
          then show "\<not> is_header (rest ! j)" by simp
        qed
        with i n show ?R by auto
      next
        assume ?R
        then obtain n where n: "n < length rest" "is_domain_line (rest ! n)"
          "\<forall>j<n. \<not> is_header (rest ! j)" by blast
        have "\<forall>j<Suc n. \<not> is_header ((raw # rest) ! j)"
        proof (intro allI impI)
          fix j assume "j < Suc n"
          then show "\<not> is_header ((raw # rest) ! j)"
            using False n(3) by (cases j) auto
        qed
        with n show ?L by (intro exI [of _ "Suc n"]) simp
      qed
      with False nd Cons.IH show ?thesis by simp
    qed
  qed
qed

lemma read_loop_missing_category:
  "domain_before_header ls \<Longrightarrow> read_loop None d ls = Inl MissingCategory"
  by (induction ls) (auto simp: is_header_def is_domain_line_def Let_def split: if_splits)

lemma read_well_formed:
  assumes "\<not> domain_before_header ls"
  shows "read (Some ls) = Inr (map (\<lambda>c. (c, source_domains ls c)) (source_categories ls))"
proof -
  have "read_loop None [] ls =
        Inr (map (\<lambda>c. (c, entries_of [] c @ attributed_to c (attributed None ls)))
               (keys [] @ first_seen (filter (\<lambda>h. h \<notin> set (keys []))
                                            (map header_name (filter is_header ls)))))"
    by (rule read_loop_closed_form) (simp_all add: keys_def assms)
  then show ?thesis
    by (simp add: read_def keys_def entries_of_def source_domains_def source_categories_def)
qed

lemma attributed_nonempty: "(c, x) \<in> set (attributed cat ls) \<Longrightarrow> x \<noteq> []"
  by (induction ls arbitrary: cat) (auto simp: is_domain_line_def split: if_splits)

lemma source_domains_nonempty: "filter (\<lambda>entry. entry \<noteq> []) (source_domains ls c) = source_domains ls c"
  by (auto simp: source_domains_def attributed_to_def filter_id_conv dest: attributed_nonempty)

lemma blocklist_text_expected:
  "blocklist_text ts (map (\<lambda>c. (c, source_domains ls c)) (source_categories ls)) fmt =
   expected_text ts fmt ls"
  by (simp add: blocklist_text_def expected_text_def section_text_def comp_def
      source_domains_nonempty)


section \<open>Facts about the output paths\<close>

lemma writes_append [simp]: "writes (a @ b) = writes a @ writes b"
  by (induction a rule: writes.induct) auto

lemma last_join_sep: "y \<noteq> [] \<Longrightarrow> last (join_sep (xs @ [y])) = last y \<and> join_sep (xs @ [y]) \<noteq> []"
  by (induction xs rule: join_sep.induct) (auto simp: last_append)

lemma hd_join_sep: "x \<noteq> [] \<Longrightarrow> hd (join_sep (x # xs)) = hd x"
  by (cases xs) auto

lemma parse_categories_path: "parse_path CATEGORIES_PATH = \<lparr>root = [], parts = [''categories'']\<rparr>"
  by code_simp

lemma root_parse_path: "root (parse_path p) = [] \<or> hd (root (parse_path p)) = CHR ''/''"
  by (simp add: parse_path_def splitroot_def)

lemma with_suffix_name:
  assumes "with_suffix p sfx = Some q" and "sfx \<noteq> []"
  shows "\<exists>n'. q = p\<lparr>parts := butlast (parts p) @ [n']\<rparr> \<and> n' \<noteq> [] \<and> last n' = last sfx
              \<and> hd n' = hd (path_name p)"
proof -
  let ?name = "path_name p"
  from assms have name: "?name \<noteq> []"
    by (auto simp: with_suffix_def Let_def split: if_splits)
  show ?thesis
  proof (cases "path_suffix p = []")
    case True
    with assms name show ?thesis
      by (auto simp: with_suffix_def Let_def)
  next
    case False
    then obtain i where i: "0 < i" "i < length ?name - 1" "path_suffix p = drop i ?name"
      by (auto simp: path_suffix_def Let_def split: option.splits if_splits)
    then have "take (length ?name - length (path_suffix p)) ?name = take i ?name"
      by simp
    moreover have "take i ?name \<noteq> []" "hd (take i ?name) = hd ?name"
      using i name by (auto simp: hd_take)
    ultimately show ?thesis
      using assms name False by (auto simp: with_suffix_def Let_def)
  qed
qed

lemma category_files_shape:
  assumes "category_files c = Some (tf, pf)"
  shows "tf \<noteq> [] \<and> last tf = CHR ''t'' \<and> (hd tf = CHR ''c'' \<or> hd tf = CHR ''/'')
         \<and> pf \<noteq> [] \<and> last pf = CHR ''d''"
proof -
  define fp where "fp = joinpath (parse_path CATEGORIES_PATH) (category_slug c)"
  from assms obtain tp where tp: "with_suffix fp ''.txt'' = Some tp" and tf: "tf = path_str tp"
    and pf: "pf = path_str fp @ ''parsed''"
    by (auto simp: category_files_def fp_def Let_def split: option.splits)
  from tp have name: "path_name fp \<noteq> []"
    by (auto simp: with_suffix_def Let_def split: if_splits)
  then have parts_ne: "parts fp \<noteq> []"
    by (auto simp: path_name_def split: if_splits)
  from with_suffix_name [OF tp]
  obtain name' where tp_eq: "tp = fp\<lparr>parts := butlast (parts fp) @ [name']\<rparr>"
    and name': "name' \<noteq> []" "last name' = CHR ''t''" "hd name' = hd (path_name fp)"
    by auto
  have hd_parts: "root fp = [] \<Longrightarrow> hd (hd (parts tp)) = CHR ''c'' \<and> hd (parts tp) \<noteq> []"
  proof -
    assume r: "root fp = []"
    then have "parts fp = ''categories'' # parts (parse_path (category_slug c))"
      by (auto simp: fp_def joinpath_def Let_def parse_categories_path split: if_splits)
    then show ?thesis
      using name' by (cases "parts (parse_path (category_slug c))") (auto simp: tp_eq path_name_def)
  qed
  have root_fp: "root fp = [] \<or> hd (root fp) = CHR ''/''"
    using root_parse_path [of "category_slug c"]
    by (auto simp: fp_def joinpath_def Let_def parse_categories_path)
  have l: "last (join_sep (parts tp)) = CHR ''t'' \<and> join_sep (parts tp) \<noteq> []"
    using last_join_sep [OF name'(1), of "butlast (parts fp)"] name'(2) by (simp add: tp_eq)
  have "tf \<noteq> [] \<and> last tf = CHR ''t''"
    using l by (auto simp: tf path_str_def)
  moreover have "hd tf = CHR ''c'' \<or> hd tf = CHR ''/''"
  proof (cases "root fp = []")
    case True
    from hd_parts [OF True] obtain x xs where "parts tp = x # xs" "x \<noteq> []" "hd x = CHR ''c''"
      by (cases "parts tp") (auto simp: tp_eq)
    then show ?thesis
      using True hd_join_sep [of x xs] by (simp add: tf path_str_def tp_eq)
  next
    case False
    with root_fp show ?thesis
      by (simp add: tf path_str_def tp_eq)
  qed
  ultimately show ?thesis
    by (simp add: pf)
qed

lemma formatter_for_fixed:
  "formatter_for PIHOLE_FILE = pihole_line"
  "formatter_for UNBOUND_FILE = unbound_line"
  "formatter_for ADGUARD_FILE = adguard_line"
  "formatter_for ADGUARD_IMPORTANT_FILE = adguard_important_line"
  by (simp_all add: formatter_for_def PIHOLE_FILE_def UNBOUND_FILE_def ADGUARD_FILE_def
      ADGUARD_IMPORTANT_FILE_def)

lemma formatter_for_category:
  assumes "category_files c = Some (tf, pf)"
  shows "formatter_for tf = category_raw_line" and "formatter_for pf = category_parsed_line"
proof -
  from category_files_shape [OF assms]
  have tf: "tf \<noteq> []" "last tf = CHR ''t''" "hd tf = CHR ''c'' \<or> hd tf = CHR ''/''"
    and pf: "pf \<noteq> []" "last pf = CHR ''d''"
    by simp_all
  have "tf \<noteq> PIHOLE_FILE" "tf \<noteq> UNBOUND_FILE" "tf \<noteq> ADGUARD_FILE" "tf \<noteq> ADGUARD_IMPORTANT_FILE"
    using tf by (auto simp: PIHOLE_FILE_def UNBOUND_FILE_def ADGUARD_FILE_def ADGUARD_IMPORTANT_FILE_def)
  then show "formatter_for tf = category_raw_line"
    using tf by (simp add: formatter_for_def)
  have "pf \<noteq> PIHOLE_FILE" "pf \<noteq> UNBOUND_FILE" "pf \<noteq> ADGUARD_FILE" "pf \<noteq> ADGUARD_IMPORTANT_FILE"
    using pf by (auto simp: PIHOLE_FILE_def UNBOUND_FILE_def ADGUARD_FILE_def ADGUARD_IMPORTANT_FILE_def)
  then show "formatter_for pf = category_parsed_line"
    using pf by (simp add: formatter_for_def)
qed


section \<open>Facts about the writer and the dispatcher\<close>


lemma stamped_simps [simp]:
  "stamped ts d []"
  "stamped ts d (a @ b) \<longleftrightarrow> stamped ts d a \<and> stamped ts d b"
  "stamped ts d (Logged l m # evs) \<longleftrightarrow> stamped ts d evs"
  "stamped ts d (Printed x # evs) \<longleftrightarrow> stamped ts d evs"
  "stamped ts d (Wrote p t # evs) \<longleftrightarrow> t = blocklist_text ts d (formatter_for p) \<and> stamped ts d evs"
  by (auto simp: stamped_def)

lemma stamped_write_blocklist:
  "formatter_for f = fmt \<Longrightarrow> stamped ts d (fst (write_blocklist e ts d f fmt))"
  by (simp add: write_blocklist_def)

lemma stamped_categories_loop: "stamped ts d (fst (categories_loop e ts d cs))"
proof (induction cs)
  case Nil
  then show ?case by simp
next
  case (Cons c cs)
  show ?case
  proof (cases "category_files c")
    case None
    then show ?thesis by simp
  next
    case (Some fs)
    obtain tf pf where fs: "fs = (tf, pf)" by (cases fs)
    have a: "stamped ts d (fst (write_blocklist e ts d tf category_raw_line))"
      and b: "stamped ts d (fst (write_blocklist e ts d pf category_parsed_line))"
      using formatter_for_category [of c tf pf] Some fs
      by (simp_all add: stamped_write_blocklist)
    then show ?thesis
      using Some fs Cons.IH
      by (auto split: prod.splits flow.splits)
  qed
qed

lemma writes_report_loop: "writes (fst (report_loop h b)) = []"
  by (induction h b rule: report_loop.induct) (auto split: prod.splits)

lemma writes_duplicates: "writes (fst (duplicates e ts d)) = []"
  by (auto simp: duplicates_def Let_def writes_report_loop split: prod.splits)
    (metis fst_conv writes_report_loop)+

lemma stamped_method:
  "getattr_converter a = Some m \<Longrightarrow> stamped ts d (fst (m e ts d))"
  by (auto simp: getattr_converter_def pihole_def unbound_def adguard_def adguard_important_def
      categories_def stamped_categories_loop stamped_write_blocklist formatter_for_fixed
      writes_duplicates stamped_def [of _ _ "fst (duplicates _ _ _)"]
      split: if_splits)

lemma stamped_run_loop: "stamped ts d (fst (run_loop e ts d as))"
proof (induction as)
  case Nil
  then show ?case by simp
next
  case (Cons a as)
  show ?case
  proof (cases "getattr_converter a")
    case None
    then show ?thesis by simp
  next
    case (Some m)
    from stamped_method [OF Some] have "stamped ts d (fst (m e ts d))" .
    with Some Cons.IH show ?thesis
      by (auto split: prod.splits flow.splits)
  qed
qed

lemma stamped_run:
  "read (source e) = Inr d \<Longrightarrow> stamped ts d (fst (run e ts a cands))"
  by (simp add: run_def stamped_run_loop) (simp add: stamped_def)

lemma main_writes:
  assumes "(p, t) \<in> set (writes (fst (main e ts argv)))"
  shows "\<exists>d. read (source e) = Inr d \<and> t = blocklist_text ts d (formatter_for p)"
proof (cases "read (source e)")
  case (Inl err)
  with assms show ?thesis
    by (auto simp: main_def run_def split: option.splits if_splits)
next
  case (Inr d)
  from assms have "(p, t) \<in> set (writes (fst (run e ts (the argv) action_candidates)))"
    by (auto simp: main_def split: option.splits if_splits)
  moreover have "stamped ts d (fst (run e ts (the argv) action_candidates))"
    by (rule stamped_run [OF Inr])
  ultimately have "t = blocklist_text ts d (formatter_for p)"
    unfolding stamped_def by blast
  with Inr show ?thesis
    by simp
qed


section \<open>Facts about well-formed files and first-seen order\<close>

lemma well_formed_iff:
  "(\<forall>i<length ls. is_domain_line (ls ! i) \<longrightarrow> (\<exists>j<i. is_header (ls ! j)))
   \<longleftrightarrow> \<not> domain_before_header ls"
  unfolding domain_before_header_iff by blast

lemma first_seen_append:
  "first_seen (xs @ ys) = first_seen xs @ first_seen (filter (\<lambda>y. y \<notin> set xs) ys)"
proof (induction xs arbitrary: ys rule: first_seen.induct)
  case 1
  then show ?case by simp
next
  case (2 x xs)
  let ?ne = "\<lambda>y. y \<noteq> x"
  have f: "filter (\<lambda>y. y \<notin> set (filter ?ne xs)) (filter ?ne ys)
        = filter ?ne (filter (\<lambda>y. y \<notin> set (x # xs)) ys)"
    by (auto intro: filter_cong)
  have "first_seen ((x # xs) @ ys) = x # first_seen (filter ?ne xs @ filter ?ne ys)"
    by simp
  also have "\<dots> = x # first_seen (filter ?ne xs) @
                     first_seen (filter (\<lambda>y. y \<notin> set (filter ?ne xs)) (filter ?ne ys))"
    by (simp only: 2 [of "filter ?ne ys"])
  also have "\<dots> = x # first_seen (filter ?ne xs) @
                     first_seen (filter ?ne (filter (\<lambda>y. y \<notin> set (x # xs)) ys))"
    by (simp only: f)
  also have "\<dots> = first_seen (x # xs) @ first_seen (filter (\<lambda>y. y \<notin> set (x # xs)) ys)"
    by (auto simp: first_seen_filter intro: filter_cong)
  finally show ?case .
qed

lemma attributed_append:
  "\<exists>cat'. attributed cat (xs @ ys) = attributed cat xs @ attributed cat' ys"
  by (induction xs arbitrary: cat) auto


section \<open>Facts about the duplicate count\<close>

lemma incr_counts:
  assumes "h = map (\<lambda>x. (x, count_list xs x)) (first_seen xs)"
  shows "incr h y = map (\<lambda>x. (x, count_list (xs @ [y]) x)) (first_seen (xs @ [y]))"
proof (cases "y \<in> set xs")
  case True
  then have fs: "first_seen (xs @ [y]) = first_seen xs"
    by (simp add: first_seen_append)
  from True have "y \<in> set (map fst h)"
    by (simp add: assms comp_def)
  then have "incr h y = map (\<lambda>(k, n). if k = y then (k, n + 1) else (k, n)) h"
    by (simp add: incr_def)
  also have "\<dots> = map (\<lambda>x. (x, count_list (xs @ [y]) x)) (first_seen xs)"
    by (simp add: assms comp_def)
  finally show ?thesis
    by (simp only: fs)
next
  case False
  then have fs: "first_seen (xs @ [y]) = first_seen xs @ [y]"
    by (simp add: first_seen_append)
  from False have "y \<notin> set (map fst h)"
    by (simp add: assms comp_def)
  then have "incr h y = h @ [(y, 1)]"
    by (simp add: incr_def)
  also have "\<dots> = map (\<lambda>x. (x, count_list (xs @ [y]) x)) (first_seen xs @ [y])"
    using False by (auto simp: assms count_list_0_iff)
  finally show ?thesis
    by (simp only: fs)
qed

lemma fold_incr_counts:
  "fold (\<lambda>entry h. incr h entry) xs [] = map (\<lambda>x. (x, count_list xs x)) (first_seen xs)"
proof (induction xs rule: rev_induct)
  case Nil
  then show ?case by simp
next
  case (snoc y xs)
  then show ?case
    by (simp add: incr_counts)
qed

lemma fold_fold_concat: "fold (\<lambda>xs h. fold f xs h) xss h = fold f (concat xss) h"
  by (induction xss arbitrary: h) auto

lemma count_entries_counts:
  "count_entries vals =
     map (\<lambda>x. (x, count_list (concat vals) x)) (first_seen (concat vals))"
proof -
  have "count_entries vals = fold (\<lambda>entry h. incr h entry) (concat vals) []"
    by (simp add: count_entries_def fold_fold_concat)
  then show ?thesis
    by (simp add: fold_incr_counts)
qed

lemma report_loop_eq:
  "report_loop h b =
     (map (\<lambda>(entry, n). Printed (duplicate_message entry n)) (filter (\<lambda>(entry, n). n > 1) h),
      b \<or> (\<exists>(entry, n) \<in> set h. n > 1))"
  by (induction h b rule: report_loop.induct) auto

lemma distinct_count_list:
  "distinct xs \<longleftrightarrow> (\<forall>x \<in> set xs. count_list xs x \<le> 1)"
  by (induction xs) (auto simp: count_list_0_iff)

lemma duplicates_eq:
  "duplicates e ts d =
     (map (\<lambda>x. Printed (duplicate_message x (count_list (all_domains d) x)))
          (filter (\<lambda>x. count_list (all_domains d) x > 1) (first_seen (all_domains d)))
      @ (if distinct (all_domains d) then [Printed ''No duplicate domains found.''] else []),
      Returned)"
proof -
  let ?all = "all_domains d"
  let ?h = "map (\<lambda>x. (x, count_list ?all x)) (first_seen ?all)"
  have h: "count_entries (values_of d) = ?h"
    by (simp add: count_entries_counts all_domains_def)
  have f: "filter (\<lambda>(entry, n). n > 1) ?h
           = map (\<lambda>x. (x, count_list ?all x)) (filter (\<lambda>x. count_list ?all x > 1) (first_seen ?all))"
    by (simp add: filter_map comp_def)
  have found: "(\<exists>(entry, n) \<in> set ?h. n > 1) \<longleftrightarrow> \<not> distinct ?all"
    by (auto simp: distinct_count_list not_le)
  show ?thesis
    unfolding duplicates_def h Let_def report_loop_eq f
    using found by (simp add: comp_def)
qed


section \<open>Facts about plain category names\<close>

lemma split_at_no_sep: "sep \<notin> set s \<Longrightarrow> split_at sep s = [s]"
  by (induction s) auto

lemma category_files_plain:
  assumes "s = category_slug c" and "s \<noteq> []" and "CHR ''/'' \<notin> set s" and "CHR ''.'' \<notin> set s"
  shows "category_files c = Some (''categories/'' @ s @ ''.txt'', ''categories/'' @ s @ ''parsed'')"
proof -
  have dot: "s \<noteq> ''.''"
    using assms(4) by auto
  have "\<not> startswith s ''/''"
    using assms(2,3) by (cases s) (auto simp: startswith_def)
  then have pp: "parse_path s = \<lparr>root = [], parts = [s]\<rparr>"
    using assms(2,3) dot by (simp add: parse_path_def splitroot_def split_at_no_sep)
  have jp: "joinpath (parse_path CATEGORIES_PATH) s = \<lparr>root = [], parts = [''categories'', s]\<rparr>"
    by (simp add: joinpath_def pp parse_categories_path)
  have sfx: "path_suffix \<lparr>root = [], parts = [''categories'', s]\<rparr> = []"
    using assms(4) by (simp add: path_suffix_def path_name_def rfind_dot_def)
  have ws: "with_suffix \<lparr>root = [], parts = [''categories'', s]\<rparr> ''.txt''
            = Some \<lparr>root = [], parts = [''categories'', s @ ''.txt'']\<rparr>"
    using assms(2) by (simp add: with_suffix_def sfx path_name_def Let_def)
  show ?thesis
    unfolding category_files_def Let_def assms(1) [symmetric] jp ws
    by (simp add: path_str_def)
qed


section \<open>Facts about the loop of the NS check\<close>

lemma dns_loop_kept:
  "snd (snd (dns_loop resolver i found kept ls)) =
     kept @ map (\<lambda>p. strip (snd p) @ nl) (filter (\<lambda>p. \<not> dropped resolver p) (enumerate i ls))"
proof (induction ls arbitrary: i found kept)
  case Nil
  then show ?case by simp
next
  case (Cons raw rest)
  show ?case
  proof (cases "is_domain_line raw")
    case False
    then have "dns_loop resolver i found kept (raw # rest)
               = dns_loop resolver (i + 1) found (kept @ [strip raw @ nl]) rest"
      by (auto simp: is_domain_line_def Let_def)
    with False Cons.IH show ?thesis
      by (simp add: dropped_def)
  next
    case True
    show ?thesis
    proof (cases "resolver i (strip raw) = NXDOMAIN")
      case nx: True
      then have "snd (snd (dns_loop resolver i found kept (raw # rest)))
                 = snd (snd (dns_loop resolver (i + 1) (found + 1) kept rest))"
        using True by (auto simp: is_domain_line_def Let_def check_domain_def split: prod.splits)
      with True nx Cons.IH show ?thesis
        by (simp add: dropped_def)
    next
      case False
      then have "snd (check_domain (resolver i (strip raw)) (strip raw)) = False"
        by (cases "resolver i (strip raw)") (auto simp: check_domain_def)
      then have "snd (snd (dns_loop resolver i found kept (raw # rest)))
                 = snd (snd (dns_loop resolver (i + 1) found (kept @ [strip raw @ nl]) rest))"
        using True by (auto simp: is_domain_line_def Let_def split: prod.splits)
      with True False Cons.IH show ?thesis
        by (simp add: dropped_def)
    qed
  qed
qed

lemma dns_loop_found:
  "fst (snd (dns_loop resolver i found kept ls)) =
     found + length (filter (dropped resolver) (enumerate i ls))"
proof (induction ls arbitrary: i found kept)
  case Nil
  then show ?case by simp
next
  case (Cons raw rest)
  show ?case
  proof (cases "is_domain_line raw")
    case False
    then have "dns_loop resolver i found kept (raw # rest)
               = dns_loop resolver (i + 1) found (kept @ [strip raw @ nl]) rest"
      by (auto simp: is_domain_line_def Let_def)
    with False Cons.IH show ?thesis
      by (simp add: dropped_def)
  next
    case True
    show ?thesis
    proof (cases "resolver i (strip raw) = NXDOMAIN")
      case nx: True
      then have "fst (snd (dns_loop resolver i found kept (raw # rest)))
                 = fst (snd (dns_loop resolver (i + 1) (found + 1) kept rest))"
        using True by (auto simp: is_domain_line_def Let_def check_domain_def split: prod.splits)
      with True nx Cons.IH show ?thesis
        by (simp add: dropped_def)
    next
      case False
      then have "snd (check_domain (resolver i (strip raw)) (strip raw)) = False"
        by (cases "resolver i (strip raw)") (auto simp: check_domain_def)
      then have "fst (snd (dns_loop resolver i found kept (raw # rest)))
                 = fst (snd (dns_loop resolver (i + 1) found (kept @ [strip raw @ nl]) rest))"
        using True by (auto simp: is_domain_line_def Let_def split: prod.splits)
      with True False Cons.IH show ?thesis
        by (simp add: dropped_def)
    qed
  qed
qed


section \<open>Facts about the two passes of the WHOIS check\<close>

lemma queries_append [simp]: "queries (a @ b) = queries a @ queries b"
  by (induction a rule: queries.induct) auto

lemma reports_append [simp]: "reports (a @ b) = reports a @ reports b"
  by (induction a rule: reports.induct) auto

lemma is_registered_events:
  "queries (fst (is_registered reply domain)) = [domain]"
  "reports (fst (is_registered reply domain)) = []"
  by (cases reply; simp add: is_registered_def Let_def)+

lemma is_registered_None:
  "snd (is_registered reply domain) = IsNone \<longleftrightarrow> transient reply"
  by (cases reply) (auto simp: is_registered_def transient_def Let_def)

lemma main_pass_eq:
  "queries (fst (main_pass service n retry ds)) = ds
   \<and> reports (fst (main_pass service n retry ds)) =
       map (\<lambda>(k, d). (d, snd (is_registered (service k d) d)))
           (filter (\<lambda>(k, d). \<not> transient (service k d)) (enumerate n ds))
   \<and> snd (main_pass service n retry ds) =
       retry @ map snd (filter (\<lambda>(k, d). transient (service k d)) (enumerate n ds))"
proof (induction ds arbitrary: n retry)
  case Nil
  then show ?case by simp
next
  case (Cons d ds)
  obtain ev r where ir: "is_registered (service n d) d = (ev, r)"
    by (cases "is_registered (service n d) d")
  have q: "queries ev = [d]" and p: "reports ev = []"
    using is_registered_events [of "service n d" d] ir by simp_all
  show ?case
  proof (cases "transient (service n d)")
    case True
    then have r: "r = IsNone"
      using is_registered_None [of "service n d" d] ir by simp
    obtain ev' r' where mp: "main_pass service (Suc n) (retry @ [d]) ds = (ev', r')"
      by (cases "main_pass service (Suc n) (retry @ [d]) ds")
    have "main_pass service n retry (d # ds) = (ev @ ev', r')"
      by (simp add: ir r mp)
    with Cons.IH [of "Suc n" "retry @ [d]"] mp True q p show ?thesis
      by simp
  next
    case False
    then have r: "r \<noteq> IsNone"
      using is_registered_None [of "service n d" d] ir by simp
    obtain ev' r' where mp: "main_pass service (Suc n) retry ds = (ev', r')"
      by (cases "main_pass service (Suc n) retry ds")
    have "main_pass service n retry (d # ds) = (ev @ [Reported d r] @ ev', r')"
      using r by (cases r) (simp_all add: ir mp)
    with Cons.IH [of "Suc n" retry] mp False q p ir show ?thesis
      by simp
  qed
qed

lemma retry_pass_eq:
  "queries (retry_pass service n ds) = ds
   \<and> reports (retry_pass service n ds) =
       map (\<lambda>(k, d). (d, snd (is_registered (service k d) d))) (enumerate n ds)"
proof (induction ds arbitrary: n)
  case Nil
  then show ?case by simp
next
  case (Cons d ds)
  obtain ev r where ir: "is_registered (service n d) d = (ev, r)"
    by (cases "is_registered (service n d) d")
  have q: "queries ev = [d]" and p: "reports ev = []"
    using is_registered_events [of "service n d" d] ir by simp_all
  from Cons.IH [of "Suc n"] q p show ?case
    by (simp add: ir)
qed

lemma remove_duplicates_first_seen: "remove_duplicates xs = first_seen xs"
  by (induction xs rule: remove_duplicates.induct) auto

lemma count_list_distinct: "distinct xs \<Longrightarrow> count_list xs x = (if x \<in> set xs then 1 else 0)"
  by (induction xs) auto

lemma distinct_failed_subset: "distinct ds \<Longrightarrow> distinct (failed_subset service ds)"
  unfolding failed_subset_def by (rule distinct_map_filter) simp

lemma set_failed_subset: "set (failed_subset service ds) \<subseteq> set ds"
  by (auto simp: failed_subset_def in_set_enumerate_eq)

lemma is_registered_failed:
  "lookup_failed reply \<Longrightarrow> \<not> transient reply \<Longrightarrow> snd (is_registered reply d) = IsFalse"
  by (cases reply) (auto simp: is_registered_def transient_def lookup_failed_def)


section \<open>Facts about substrings and stripping\<close>

lemma startswith_iff: "startswith s p \<longleftrightarrow> (\<exists>b. s = p @ b)"
proof
  assume "startswith s p"
  then have "s = p @ drop (length p) s"
    by (metis append_take_drop_id startswith_def)
  then show "\<exists>b. s = p @ b" ..
next
  assume "\<exists>b. s = p @ b"
  then show "startswith s p"
    by (auto simp: startswith_def)
qed

lemma contains_iff: "contains f s \<longleftrightarrow> (\<exists>a b. s = a @ f @ b)"
proof (induction s)
  case Nil
  then show ?case by auto
next
  case (Cons c cs)
  show ?case
  proof
    assume "contains f (c # cs)"
    then consider "startswith (c # cs) f" | "contains f cs"
      by auto
    then show "\<exists>a b. c # cs = a @ f @ b"
    proof cases
      case 1
      then obtain b where "c # cs = f @ b"
        by (auto simp: startswith_iff)
      then have "c # cs = [] @ f @ b" by simp
      then show ?thesis by blast
    next
      case 2
      with Cons.IH obtain a b where "cs = a @ f @ b" by blast
      then have "c # cs = (c # a) @ f @ b" by simp
      then show ?thesis by blast
    qed
  next
    assume "\<exists>a b. c # cs = a @ f @ b"
    then obtain a b where ab: "c # cs = a @ f @ b" by blast
    show "contains f (c # cs)"
    proof (cases a)
      case Nil
      with ab have "startswith (c # cs) f"
        by (auto simp: startswith_iff)
      then show ?thesis by simp
    next
      case (Cons x a')
      with ab have "cs = a' @ f @ b" by simp
      with Cons.IH have "contains f cs" by blast
      then show ?thesis by simp
    qed
  qed
qed

lemma strip_decompose: "\<exists>u v. s = u @ strip s @ v"
proof -
  have "s = takeWhile isspace s @ lstrip s"
    by (simp add: lstrip_def)
  moreover have "lstrip s = strip s @ rev (takeWhile isspace (rev (lstrip s)))"
    unfolding strip_def rstrip_def
    by (metis rev_append rev_rev_ident takeWhile_dropWhile_id)
  ultimately have "s = takeWhile isspace s @ strip s @ rev (takeWhile isspace (rev (lstrip s)))"
    by simp
  then show ?thesis by blast
qed

lemma contains_strip:
  assumes "f \<noteq> []" and "\<not> isspace (hd f)" and "\<not> isspace (last f)"
  shows "contains f (strip s) \<longleftrightarrow> contains f s"
proof
  assume "contains f (strip s)"
  then obtain a b where "strip s = a @ f @ b"
    by (auto simp: contains_iff)
  moreover obtain u v where "s = u @ strip s @ v"
    using strip_decompose by blast
  ultimately have "s = (u @ a) @ f @ (b @ v)"
    by simp
  then show "contains f s"
    unfolding contains_iff by blast
next
  assume "contains f s"
  then obtain a b where s: "s = a @ f @ b"
    by (auto simp: contains_iff)
  from assms obtain c f' where f: "f = c # f'" "\<not> isspace c"
    by (cases f) auto
  have l: "lstrip s = dropWhile isspace a @ f @ b"
    using dropWhile_append3 [of isspace c a "f' @ b"] f by (simp add: s lstrip_def)
  from assms obtain g z where g: "f = g @ [z]" "\<not> isspace z"
    by (cases f rule: rev_cases) auto
  have "rev (lstrip s) = rev b @ z # rev g @ rev (dropWhile isspace a)"
    by (simp add: l g)
  then have "dropWhile isspace (rev (lstrip s)) =
             dropWhile isspace (rev b) @ z # rev g @ rev (dropWhile isspace a)"
    using dropWhile_append3 [of isspace z "rev b" "rev g @ rev (dropWhile isspace a)"] g(2)
    by simp
  then have "strip s = dropWhile isspace a @ f @ rev (dropWhile isspace (rev b))"
    by (simp add: strip_def rstrip_def g)
  then show "contains f (strip s)"
    unfolding contains_iff by blast
qed


section \<open>Facts about the strict checks\<close>

lemma count_lines_fold:
  "count_lines counts ls = fold (\<lambda>d h. incr h d) (nonblank_lines ls) counts"
  by (induction ls arbitrary: counts) (auto simp: nonblank_lines_def incr_def Let_def)

lemma count_lines_counts:
  "count_lines [] ls =
     map (\<lambda>x. (x, count_list (nonblank_lines ls) x)) (first_seen (nonblank_lines ls))"
  by (simp add: count_lines_fold fold_incr_counts)

lemma first_duplicate_eq:
  "first_duplicate h =
     (case filter (\<lambda>(d, n). n > 1) h of
        [] \<Rightarrow> None
      | (d, n) # _ \<Rightarrow> Some (DuplicateDomain d n))"
  by (induction h rule: first_duplicate.induct) auto

lemma first_duplicate_counts:
  "first_duplicate (count_lines [] ls) =
     (case filter (\<lambda>x. count_list (nonblank_lines ls) x > 1) (first_seen (nonblank_lines ls)) of
        [] \<Rightarrow> None
      | x # _ \<Rightarrow> Some (DuplicateDomain x (count_list (nonblank_lines ls) x)))"
  by (simp add: first_duplicate_eq count_lines_counts filter_map comp_def split: list.splits)

lemma no_duplicate_iff:
  "filter (\<lambda>x. count_list xs x > 1) (first_seen xs) = [] \<longleftrightarrow> distinct xs"
  by (auto simp: filter_empty_conv distinct_count_list not_less)

lemma first_forbidden_None: "first_forbidden fs d = None \<longleftrightarrow> (\<forall>f \<in> set fs. \<not> contains f d)"
  by (induction fs) auto

lemma first_forbidden_Some:
  "first_forbidden fs d = Some f \<Longrightarrow> f \<in> set fs \<and> contains f d"
  by (induction fs) (auto split: if_splits)

lemma regex_loop_eq:
  "regex_loop k fs ls =
     (case dropWhile (\<lambda>l. \<not> offending fs l) ls of
        [] \<Rightarrow> None
      | l # _ \<Rightarrow> Some (ForbiddenDomain (the (first_forbidden fs (strip l)))
                         (k + length (takeWhile (\<lambda>l. \<not> offending fs l) ls)) (strip l)))"
proof (induction ls arbitrary: k)
  case Nil
  then show ?case by simp
next
  case (Cons a ls)
  show ?case
  proof (cases "offending fs a")
    case True
    then obtain f where "first_forbidden fs (strip a) = Some f" "strip a \<noteq> []"
      by (auto simp: offending_def)
    with True show ?thesis
      by (simp add: Let_def)
  next
    case False
    then have step: "regex_loop k fs (a # ls) = regex_loop (Suc k) fs ls"
      by (auto simp: offending_def Let_def)
    have dw: "dropWhile (\<lambda>l. \<not> offending fs l) (a # ls) = dropWhile (\<lambda>l. \<not> offending fs l) ls"
      and tw: "takeWhile (\<lambda>l. \<not> offending fs l) (a # ls) = a # takeWhile (\<lambda>l. \<not> offending fs l) ls"
      using False by simp_all
    show ?thesis
      unfolding step dw tw Cons.IH [of "Suc k"]
      by (cases "dropWhile (\<lambda>l. \<not> offending fs l) ls")
        (simp_all del: dropWhile_eq_Nil_conv)
  qed
qed

lemma offending_configured:
  "offending forbidden_domains line \<longleftrightarrow> (\<exists>f \<in> set forbidden_domains. contains f line)"
proof -
  have c: "contains f (strip line) \<longleftrightarrow> contains f line" if "f \<in> set forbidden_domains" for f
    using that by (intro contains_strip) (auto simp: forbidden_domains_def isspace_def)
  have ne: "strip line \<noteq> []" if "f \<in> set forbidden_domains" "contains f (strip line)" for f
    using that by (auto simp: forbidden_domains_def contains_iff)
  show ?thesis
    using c ne by (auto simp: offending_def first_forbidden_None)
qed


lemma check_duplicates_eq:
  "snd (check_duplicates filepath (Some ls)) =
     (case filter (\<lambda>x. count_list (nonblank_lines ls) x > 1) (first_seen (nonblank_lines ls)) of
        [] \<Rightarrow> Inr ()
      | x # _ \<Rightarrow> Inl (AssertionError (DuplicateDomain x (count_list (nonblank_lines ls) x))))"
  by (simp add: check_duplicates_def first_duplicate_counts split: list.splits)

lemma check_regex_domains_eq:
  "snd (check_regex_domains filepath (Some ls) fs) =
     (case dropWhile (\<lambda>l. \<not> offending fs l) ls of
        [] \<Rightarrow> Inr ()
      | l # _ \<Rightarrow> Inl (AssertionError
                    (ForbiddenDomain (the (first_forbidden fs (strip l)))
                       (1 + length (takeWhile (\<lambda>l. \<not> offending fs l) ls)) (strip l))))"
  unfolding check_regex_domains_def regex_loop_eq
  by (cases "dropWhile (\<lambda>l. \<not> offending fs l) ls") (simp_all del: dropWhile_eq_Nil_conv)

lemma first_offending:
  assumes "dropWhile (\<lambda>l. \<not> P l) ls = l # rest"
  shows "length (takeWhile (\<lambda>l. \<not> P l) ls) < length ls"
    and "ls ! length (takeWhile (\<lambda>l. \<not> P l) ls) = l"
    and "P l"
    and "\<forall>k < length (takeWhile (\<lambda>l. \<not> P l) ls). \<not> P (ls ! k)"
proof -
  let ?n = "length (takeWhile (\<lambda>l. \<not> P l) ls)"
  have d: "drop ?n ls = l # rest"
    using assms by (simp add: dropWhile_eq_drop)
  then show lt: "?n < length ls"
    by (metis drop_all linorder_not_less list.distinct(1))
  from d show "ls ! ?n = l"
    by (metis Cons_nth_drop_Suc lt list.inject)
  from assms show "P l"
    by (metis hd_dropWhile list.distinct(1) list.sel(1))
  show "\<forall>k < ?n. \<not> P (ls ! k)"
    by (metis nth_mem set_takeWhileD takeWhile_nth)
qed


section \<open>Format exactness of the emitters\<close>

text \<open>
  Claim C2.  For every domain string the four emitters produce exactly the lines of the
  format table, newline included: the Pi-hole line, the Unbound line (the domain between
  double quotes), the AdGuard line and the AdGuard-important line.  For the source file
  with the category Ads and the domain doubleclick.net, the parser yields the one-category
  document and the writer's text is the two header lines, the section marker and the
  example line of each format.
\<close>

theorem emitters_exact_lines:
  "pihole_line d = ''0.0.0.0 '' @ d @ ''\<newline>''
   \<and> unbound_line d = ''local-zone: '' @ [CHR 0x22] @ d @ [CHR 0x22] @ '' always_refuse\<newline>''
   \<and> adguard_line d = ''||'' @ d @ ''^\<newline>''
   \<and> adguard_important_line d = ''||'' @ d @ ''^$important\<newline>''
   \<and> pihole_line ''doubleclick.net'' = ''0.0.0.0 doubleclick.net\<newline>''
   \<and> unbound_line ''doubleclick.net'' =
         ''local-zone: '' @ [CHR 0x22] @ ''doubleclick.net'' @ [CHR 0x22] @ '' always_refuse\<newline>''
   \<and> adguard_line ''doubleclick.net'' = ''||doubleclick.net^\<newline>''
   \<and> adguard_important_line ''doubleclick.net'' = ''||doubleclick.net^$important\<newline>''
   \<and> read (Some [''# Ads'', ''doubleclick.net'']) = Inr [(''Ads'', [''doubleclick.net''])]
   \<and> blocklist_text ts [(''Ads'', [''doubleclick.net''])] pihole_line =
         ''# '' @ BLOCKLIST_ABOUT @ ''\<newline># Last updated: '' @ ts @
         ''\<newline># Ads\<newline>0.0.0.0 doubleclick.net\<newline>''
   \<and> blocklist_text ts [(''Ads'', [''doubleclick.net''])] unbound_line =
         ''# '' @ BLOCKLIST_ABOUT @ ''\<newline># Last updated: '' @ ts @
         ''\<newline># Ads\<newline>local-zone: '' @ [CHR 0x22] @ ''doubleclick.net'' @ [CHR 0x22] @
         '' always_refuse\<newline>''
   \<and> blocklist_text ts [(''Ads'', [''doubleclick.net''])] adguard_line =
         ''# '' @ BLOCKLIST_ABOUT @ ''\<newline># Last updated: '' @ ts @
         ''\<newline># Ads\<newline>||doubleclick.net^\<newline>''
   \<and> blocklist_text ts [(''Ads'', [''doubleclick.net''])] adguard_important_line =
         ''# '' @ BLOCKLIST_ABOUT @ ''\<newline># Last updated: '' @ ts @
         ''\<newline># Ads\<newline>||doubleclick.net^$important\<newline>''"
proof -
  have r: "read (Some [''# Ads'', ''doubleclick.net'']) = Inr [(''Ads'', [''doubleclick.net''])]"
    by code_simp
  show ?thesis
    by (simp add: r pihole_line_def unbound_line_def adguard_line_def adguard_important_line_def
        blocklist_text_def section_text_def nl_def)
qed


section \<open>The NS check is conservative\<close>

text \<open>
  Claim C8, as the claim states it, fails for the resolver errors that the two catch-all
  handlers take: such an error is logged at the error level, and no warning is logged.
\<close>

theorem other_dns_error_logged_as_error:
  "check_domain (DNSException ''SERVFAIL'') ''example.com'' =
     ([(ERROR, ''DNS Exception for example.com: SERVFAIL. Treating as if NS records exist.'')], False)
   \<and> WARNING \<notin> set (map fst (fst (check_domain (DNSException ''SERVFAIL'') ''example.com'')))"
  by (simp add: check_domain_def)

text \<open>
  Claim C8, amended.  The NS check returns the no-NS-records (remove) outcome exactly
  when the resolver reports NXDOMAIN.  An answer and NXDOMAIN log nothing; a timeout, a
  no-answer response and a no-nameservers response yield the retain outcome with one
  record at the warning level; every other resolver error yields the retain outcome with
  one record at the error level.
\<close>

theorem check_domain_conservative:
  "snd (check_domain reply domain) = (reply = NXDOMAIN)
   \<and> map fst (fst (check_domain reply domain)) =
       (case reply of
          Answer \<Rightarrow> []
        | NXDOMAIN \<Rightarrow> []
        | NoNameservers \<Rightarrow> [WARNING]
        | NoAnswer \<Rightarrow> [WARNING]
        | Timeout \<Rightarrow> [WARNING]
        | DNSException msg \<Rightarrow> [ERROR]
        | OtherException msg \<Rightarrow> [ERROR])"
  by (cases reply) (simp_all add: check_domain_def)


section \<open>First-seen order in every emitted file\<close>

text \<open>
  Claim C1.  Take a well-formed source file: every domain line has a category header
  somewhere before it.  Then parsing succeeds, and the document lists the categories in
  the order in which their headers are first seen, each once, each with the domain lines
  that stand under its headers, in source order.  A header that comes again opens no new
  key and clears nothing: when the file goes on, the categories and the domains of each
  category found so far stay as they are and the new ones come after them.  The text the
  writer makes of the document, for any line formatter, is the text that the source file
  determines, and so is the text of every file that a run of the converter writes, for
  every subcommand and whatever the run can write to.
\<close>

theorem first_seen_order_preserved:
  assumes "\<forall>i<length ls. is_domain_line (ls ! i) \<longrightarrow> (\<exists>j<i. is_header (ls ! j))"
  shows "read (Some ls) = Inr (map (\<lambda>c. (c, source_domains ls c)) (source_categories ls))
       \<and> distinct (source_categories ls)
       \<and> (\<exists>new. source_categories (ls @ rest) = source_categories ls @ new)
       \<and> (\<exists>later. source_domains (ls @ rest) c = source_domains ls c @ later)
       \<and> blocklist_text ts (map (\<lambda>c. (c, source_domains ls c)) (source_categories ls)) fmt
           = expected_text ts fmt ls
       \<and> (\<forall>e argv p t. source e = Some ls \<and> (p, t) \<in> set (writes (fst (main e ts argv)))
             \<longrightarrow> t = expected_text ts (formatter_for p) ls)"
proof -
  from assms have wf: "\<not> domain_before_header ls"
    using well_formed_iff [of ls] by blast
  have r: "read (Some ls) = Inr (map (\<lambda>c. (c, source_domains ls c)) (source_categories ls))"
    by (rule read_well_formed [OF wf])
  have d: "distinct (source_categories ls)"
    by (simp add: source_categories_def)
  have c: "\<exists>new. source_categories (ls @ rest) = source_categories ls @ new"
    by (simp add: source_categories_def first_seen_append)
  have s: "\<exists>later. source_domains (ls @ rest) c = source_domains ls c @ later"
    using attributed_append [of None ls rest]
    by (auto simp: source_domains_def attributed_to_def)
  have w: "t = expected_text ts (formatter_for p) ls"
    if "source e = Some ls \<and> (p, t) \<in> set (writes (fst (main e ts argv)))" for e argv p t
  proof -
    from that main_writes [of p t e ts argv]
    obtain d where "read (Some ls) = Inr d" "t = blocklist_text ts d (formatter_for p)"
      by auto
    with r show ?thesis
      by (simp add: blocklist_text_expected)
  qed
  from r d c s w show ?thesis
    by (simp only: blocklist_text_expected) blast
qed

text \<open>The theorem at a file in which the category A comes twice.\<close>

theorem first_seen_order_preserved_witness:
  "read (Some [''# A'', ''x.com'', ''# B'', ''y.com'', '''', ''# A'', ''z.com''])
     = Inr [(''A'', [''x.com'', ''z.com'']), (''B'', [''y.com''])]
   \<and> expected_text ''2024-01-01'' category_parsed_line
        [''# A'', ''x.com'', ''# B'', ''y.com'', '''', ''# A'', ''z.com'']
     = ''# '' @ BLOCKLIST_ABOUT @
       ''\<newline># Last updated: 2024-01-01\<newline># A\<newline>x.com\<newline>z.com\<newline># B\<newline>y.com\<newline>''"
proof -
  let ?ls = "[''# A'', ''x.com'', ''# B'', ''y.com'', '''', ''# A'', ''z.com'']"
  have "\<not> domain_before_header ?ls"
    by code_simp
  then have wf: "\<forall>i<length ?ls. is_domain_line (?ls ! i) \<longrightarrow> (\<exists>j<i. is_header (?ls ! j))"
    using well_formed_iff [of ?ls] by blast
  have cats: "source_categories ?ls = [''A'', ''B'']"
    by code_simp
  have a: "source_domains ?ls ''A'' = [''x.com'', ''z.com'']"
    by code_simp
  have b: "source_domains ?ls ''B'' = [''y.com'']"
    by code_simp
  from first_seen_order_preserved [OF wf, of "[]" "[]" "''2024-01-01''" category_parsed_line]
  have "read (Some ?ls) = Inr (map (\<lambda>c. (c, source_domains ?ls c)) (source_categories ?ls))"
    and "blocklist_text ''2024-01-01'' (map (\<lambda>c. (c, source_domains ?ls c)) (source_categories ?ls))
           category_parsed_line = expected_text ''2024-01-01'' category_parsed_line ?ls"
    by blast+
  then show ?thesis
    by (simp add: cats a b blocklist_text_def section_text_def category_parsed_line_def nl_def)
qed


section \<open>A domain line before every header aborts the run\<close>

text \<open>
  Claim C3.  When some non-blank, non-comment line of the source file comes before every
  category header line, parsing fails with the missing-category error, the process ends
  with exit status 1 whatever the subcommand is, and no file is opened for writing: for
  every valid subcommand the only thing the run does is log the parse error.
\<close>

theorem domain_before_header_aborts:
  assumes "source e = Some ls"
    and "i < length ls"
    and "is_domain_line (ls ! i)"
    and "\<forall>j<i. \<not> is_header (ls ! j)"
  shows "read (source e) = Inl MissingCategory
       \<and> snd (main e ts argv) = 1
       \<and> writes (fst (main e ts argv)) = []
       \<and> (\<forall>sub \<in> set (action_candidates @ special_candidates).
             main e ts (Some sub) = ([Logged ERROR NoCategory], 1))"
proof -
  from assms(2-4) have "domain_before_header ls"
    unfolding domain_before_header_iff by blast
  then have r: "read (source e) = Inl MissingCategory"
    by (simp add: read_def assms(1) read_loop_missing_category)
  then have run: "run e ts a cands = ([Logged ERROR NoCategory], 1)" for a cands
    by (simp add: run_def read_diagnostic_def)
  have "snd (main e ts argv) = 1" "writes (fst (main e ts argv)) = []"
    by (auto simp: main_def run split: option.splits)
  moreover have "\<forall>sub \<in> set (action_candidates @ special_candidates).
             main e ts (Some sub) = ([Logged ERROR NoCategory], 1)"
    by (simp add: main_def run)
  ultimately show ?thesis
    using r by blast
qed

text \<open>The theorem at a file whose first line is a bare domain, under the subcommand
  that runs every writer.\<close>

theorem domain_before_header_aborts_witness:
  "read (Some [''doubleclick.net'', ''# Ads'', ''google.com'']) = Inl MissingCategory
   \<and> main \<lparr>source = Some [''doubleclick.net'', ''# Ads'', ''google.com''],
            writable = (\<lambda>path. True), mkdir_ok = True\<rparr> ''2024-01-01'' (Some ''all'')
       = ([Logged ERROR NoCategory], 1)"
proof -
  let ?ls = "[''doubleclick.net'', ''# Ads'', ''google.com'']"
  let ?e = "\<lparr>source = Some ?ls, writable = (\<lambda>path. True), mkdir_ok = True\<rparr>"
  have d: "is_domain_line (?ls ! 0)"
    by code_simp
  have "''all'' \<in> set (action_candidates @ special_candidates)"
    by (simp add: special_candidates_def)
  with domain_before_header_aborts [of ?e ?ls 0 "''2024-01-01''" "Some ''all''"] d
  show ?thesis
    by simp
qed


section \<open>The emitted bytes depend on the source file and the timestamp alone\<close>

text \<open>
  Claim C5.  Take two runs of the converter over the same source file with the same
  timestamp; the subcommands of the two runs and what each run can write to are free.
  Whenever both runs write a file at the same path, they write the same bytes to it: the
  text of the parsed document in the format that belongs to the path.  Two runs that
  also agree on the subcommand and on what can be written do the same events and end with
  the same exit status.
\<close>

theorem emitted_bytes_deterministic:
  assumes "source e1 = source e2"
    and "(p, t1) \<in> set (writes (fst (main e1 ts argv1)))"
    and "(p, t2) \<in> set (writes (fst (main e2 ts argv2)))"
  shows "t1 = t2
       \<and> (\<exists>d. read (source e1) = Inr d \<and> t1 = blocklist_text ts d (formatter_for p))
       \<and> (writable e1 = writable e2 \<and> mkdir_ok e1 = mkdir_ok e2 \<and> argv1 = argv2
            \<longrightarrow> main e1 ts argv1 = main e2 ts argv2)"
proof -
  from main_writes [OF assms(2)]
  obtain d1 where d1: "read (source e1) = Inr d1" "t1 = blocklist_text ts d1 (formatter_for p)"
    by blast
  from main_writes [OF assms(3)]
  obtain d2 where d2: "read (source e2) = Inr d2" "t2 = blocklist_text ts d2 (formatter_for p)"
    by blast
  from d1(1) d2(1) assms(1) have "d1 = d2"
    by simp
  with d1 d2 have "t1 = t2"
    by simp
  moreover have "main e1 ts argv1 = main e2 ts argv2"
    if "writable e1 = writable e2 \<and> mkdir_ok e1 = mkdir_ok e2 \<and> argv1 = argv2"
  proof -
    from that assms(1) have "e1 = e2"
      by simp
    with that show ?thesis
      by simp
  qed
  ultimately show ?thesis
    using d1 by blast
qed

text \<open>The theorem at two runs over the same file: the first runs every writer, the second
  only the Pi-hole writer and could not create the categories directory.\<close>

theorem emitted_bytes_deterministic_witness:
  "(''google-domains'',
    ''# '' @ BLOCKLIST_ABOUT @ ''\<newline># Last updated: 2024-01-01\<newline># Ads\<newline>0.0.0.0 doubleclick.net\<newline>'')
     \<in> set (writes (fst (main \<lparr>source = Some [''# Ads'', ''doubleclick.net''],
                                writable = (\<lambda>path. True), mkdir_ok = True\<rparr>
                         ''2024-01-01'' (Some ''all''))))
   \<and> (''google-domains'',
        blocklist_text ''2024-01-01'' [(''Ads'', [''doubleclick.net''])] pihole_line)
     \<in> set (writes (fst (main \<lparr>source = Some [''# Ads'', ''doubleclick.net''],
                                writable = (\<lambda>path. True), mkdir_ok = False\<rparr>
                         ''2024-01-01'' (Some ''pihole''))))
   \<and> ''# '' @ BLOCKLIST_ABOUT @ ''\<newline># Last updated: 2024-01-01\<newline># Ads\<newline>0.0.0.0 doubleclick.net\<newline>''
       = blocklist_text ''2024-01-01'' [(''Ads'', [''doubleclick.net''])] pihole_line"
proof -
  let ?ls = "[''# Ads'', ''doubleclick.net'']"
  let ?e1 = "\<lparr>source = Some ?ls, writable = (\<lambda>path. True), mkdir_ok = True\<rparr>"
  let ?e2 = "\<lparr>source = Some ?ls, writable = (\<lambda>path. True), mkdir_ok = False\<rparr>"
  let ?t1 = "''# '' @ BLOCKLIST_ABOUT @ ''\<newline># Last updated: 2024-01-01\<newline># Ads\<newline>0.0.0.0 doubleclick.net\<newline>''"
  let ?t2 = "blocklist_text ''2024-01-01'' [(''Ads'', [''doubleclick.net''])] pihole_line"
  have a: "(''google-domains'', ?t1) \<in> set (writes (fst (main ?e1 ''2024-01-01'' (Some ''all''))))"
    by code_simp
  have b: "(''google-domains'', ?t2) \<in> set (writes (fst (main ?e2 ''2024-01-01'' (Some ''pihole''))))"
    by code_simp
  have s: "source ?e1 = source ?e2"
    by simp
  from emitted_bytes_deterministic [OF s a b] have "?t1 = ?t2"
    by blast
  with a b show ?thesis
    by blast
qed


section \<open>The report-only duplicate check\<close>

text \<open>
  Claim C6.  The duplicate check counts every domain string over the entries of all
  categories together.  It prints one report line, with the count, for every domain whose
  count is above one, in the order in which the domains are first seen, and when there is
  no such domain (the domains are pairwise distinct) it prints the single no-duplicates
  message instead.  It always returns to its caller, never leaving through an exit or
  an exception, it writes no file, and the document is as before: in a sequence of
  subcommands the ones after it run on the same document, and a run of the subcommand
  alone over a readable source file ends with exit status 0.
\<close>

theorem duplicates_report_only:
  "duplicates e ts d =
     (map (\<lambda>x. Printed (duplicate_message x (count_list (all_domains d) x)))
          (filter (\<lambda>x. count_list (all_domains d) x > 1) (first_seen (all_domains d)))
      @ (if distinct (all_domains d) then [Printed ''No duplicate domains found.''] else []),
      Returned)
   \<and> writes (fst (duplicates e ts d)) = []
   \<and> run_loop e ts d (''duplicates'' # rest) =
         (Logged INFO (Invoking ''duplicates'') # fst (duplicates e ts d) @ fst (run_loop e ts d rest),
          snd (run_loop e ts d rest))
   \<and> (read (source e) = Inr d \<longrightarrow>
         main e ts (Some ''duplicates'') =
           (Logged INFO (Invoking ''duplicates'') # fst (duplicates e ts d), 0))"
proof -
  have g: "getattr_converter ''duplicates'' = Some duplicates"
    by (simp add: getattr_converter_def)
  have r: "snd (duplicates e ts d) = Returned"
    by (simp add: duplicates_eq)
  have loop: "run_loop e ts d (''duplicates'' # rest) =
         (Logged INFO (Invoking ''duplicates'') # fst (duplicates e ts d) @ fst (run_loop e ts d rest),
          snd (run_loop e ts d rest))" for rest
    using r by (cases "duplicates e ts d") (auto simp: g split: prod.splits)
  have m: "main e ts (Some ''duplicates'') =
           (Logged INFO (Invoking ''duplicates'') # fst (duplicates e ts d), 0)"
    if "read (source e) = Inr d"
    using that loop [of "[]"]
    by (simp add: main_def run_def special_candidates_def)
  from duplicates_eq [of e ts d] writes_duplicates [of e ts d] loop [of rest] m
  show ?thesis
    by blast
qed

text \<open>The theorem at a source file with a domain that stands under two categories.\<close>

theorem duplicates_report_only_witness:
  "read (source \<lparr>source = Some [''# Ads'', ''a.com'', ''b.com'', ''# Maps'', ''a.com''],
                   writable = (\<lambda>path. True), mkdir_ok = True\<rparr>)
     = Inr [(''Ads'', [''a.com'', ''b.com'']), (''Maps'', [''a.com''])]
   \<and> main \<lparr>source = Some [''# Ads'', ''a.com'', ''b.com'', ''# Maps'', ''a.com''],
            writable = (\<lambda>path. True), mkdir_ok = True\<rparr> ''2024-01-01'' (Some ''duplicates'')
     = ([Logged INFO (Invoking ''duplicates''),
         Printed ''Domain a.com found 2 times, please remove duplicate domains.''], 0)"
proof -
  let ?e = "\<lparr>source = Some [''# Ads'', ''a.com'', ''b.com'', ''# Maps'', ''a.com''],
             writable = (\<lambda>path. True), mkdir_ok = True\<rparr>"
  let ?d = "[(''Ads'', [''a.com'', ''b.com'']), (''Maps'', [''a.com''])]"
  have r: "read (source ?e) = Inr ?d"
    by code_simp
  have d: "fst (duplicates ?e ''2024-01-01'' ?d)
           = [Printed ''Domain a.com found 2 times, please remove duplicate domains.'']"
    by code_simp
  from duplicates_report_only [of ?e "''2024-01-01''" ?d "[]"] r
  have "main ?e ''2024-01-01'' (Some ''duplicates'') =
           (Logged INFO (Invoking ''duplicates'') # fst (duplicates ?e ''2024-01-01'' ?d), 0)"
    by blast
  with r d show ?thesis
    by simp
qed


section \<open>The file names of the per-category action\<close>

text \<open>
  Claim C4.  The slug of a category is its name without blanks, lower-cased.  For a
  category whose slug is not empty and has neither a slash nor a dot, the per-category
  action writes the raw file to the slug followed by \<open>.txt\<close> and the parsed file to
  the slug followed by \<open>parsed\<close>, both in the categories directory.  For the category
  \<open>Google.com\<close> the parsed file is named so, but the raw file is not: the suffix
  replacement cuts the slug at its last dot, and the raw file is \<open>google.txt\<close>
  instead of \<open>google.com.txt\<close>.
\<close>

theorem category_file_names:
  "category_slug c = lower (replace_blank c)
   \<and> (category_slug c \<noteq> [] \<and> CHR ''/'' \<notin> set (category_slug c) \<and> CHR ''.'' \<notin> set (category_slug c)
        \<longrightarrow> category_files c =
            Some (''categories/'' @ category_slug c @ ''.txt'',
                  ''categories/'' @ category_slug c @ ''parsed''))
   \<and> category_slug ''Google.com'' = ''google.com''
   \<and> category_files ''Google.com'' = Some (''categories/google.txt'', ''categories/google.comparsed'')
   \<and> writes (fst (main \<lparr>source = Some [''# Google.com'', ''google.com''],
                          writable = (\<lambda>path. True), mkdir_ok = True\<rparr>
                        ''2024-01-01'' (Some ''categories'')))
       = [(''categories/google.txt'',
           ''# '' @ BLOCKLIST_ABOUT @ ''\<newline># Last updated: 2024-01-01\<newline># Google.com\<newline>0.0.0.0 google.com\<newline>''),
          (''categories/google.comparsed'',
           ''# '' @ BLOCKLIST_ABOUT @ ''\<newline># Last updated: 2024-01-01\<newline># Google.com\<newline>google.com\<newline>'')]"
proof -
  have a: "category_slug ''Google.com'' = ''google.com''"
    by code_simp
  have b: "category_files ''Google.com'' = Some (''categories/google.txt'', ''categories/google.comparsed'')"
    unfolding category_files_def Let_def by code_simp
  have r: "read (Some [''# Google.com'', ''google.com'']) = Inr [(''Google.com'', [''google.com''])]"
    by code_simp
  have w: "writes (fst (main \<lparr>source = Some [''# Google.com'', ''google.com''],
                          writable = (\<lambda>path. True), mkdir_ok = True\<rparr>
                        ''2024-01-01'' (Some ''categories'')))
       = [(''categories/google.txt'',
           ''# '' @ BLOCKLIST_ABOUT @ ''\<newline># Last updated: 2024-01-01\<newline># Google.com\<newline>0.0.0.0 google.com\<newline>''),
          (''categories/google.comparsed'',
           ''# '' @ BLOCKLIST_ABOUT @ ''\<newline># Last updated: 2024-01-01\<newline># Google.com\<newline>google.com\<newline>'')]"
    by (simp add: main_def action_candidates_def run_def r getattr_converter_def categories_def
        keys_def b write_blocklist_def blocklist_text_def section_text_def category_raw_line_def
        category_parsed_line_def nl_def)
  from a b w category_files_plain [of "category_slug c" c] show ?thesis
    by (simp add: category_slug_def)
qed

text \<open>The theorem at the category of the specification's example.\<close>

theorem category_file_names_witness:
  "category_slug ''Analytics & Ads'' = ''analytics&ads''
   \<and> category_files ''Analytics & Ads'' =
       Some (''categories/analytics&ads.txt'', ''categories/analytics&adsparsed'')"
proof -
  have s: "category_slug ''Analytics & Ads'' = ''analytics&ads''"
    by code_simp
  from category_file_names [of "''Analytics & Ads''"] show ?thesis
    by (simp add: s)
qed


section \<open>The NS check rewrites the source file in place\<close>

text \<open>
  Claim C10.  When the input file can be read and written, the NS check writes back the
  lines of the file in their order, each stripped of surrounding white space and ended
  with a newline, without the dropped ones.  A line is dropped exactly when it is a
  domain line (not blank, not a comment) and the check classes its domain as having no NS
  records, which is when the resolver reports NXDOMAIN; so comment lines, blank lines
  and the domains that are kept all stay.  On a file without a domain line to drop the
  result is every line, stripped and ended with a newline.  The number in the closing
  log record is the number of dropped lines.
\<close>

theorem ns_check_rewrites_file:
  "snd (dns_main resolver (Some ls) True) =
     Some (map (\<lambda>p. strip (snd p) @ nl) (filter (\<lambda>p. \<not> dropped resolver p) (enumerate 0 ls)))
   \<and> dropped resolver (i, raw) =
       (is_domain_line raw \<and> snd (check_domain (resolver i (strip raw)) (strip raw)))
   \<and> (if filter (dropped resolver) (enumerate 0 ls) = []
       then snd (dns_main resolver (Some ls) True) = Some (map (\<lambda>raw. strip raw @ nl) ls)
       else length (the (snd (dns_main resolver (Some ls) True))) < length ls)
   \<and> last (fst (dns_main resolver (Some ls) True)) =
       (INFO, ''Processed domains. Found '' @
              str_nat (length (filter (dropped resolver) (enumerate 0 ls))) @
              '' domains without NS records.'')"
proof -
  obtain lg found kept where l: "dns_loop resolver 0 0 [] ls = (lg, found, kept)"
    by (cases "dns_loop resolver 0 0 [] ls") auto
  from dns_loop_kept [of resolver 0 0 "[]" ls] l
  have kept: "kept = map (\<lambda>p. strip (snd p) @ nl) (filter (\<lambda>p. \<not> dropped resolver p) (enumerate 0 ls))"
    by simp
  from dns_loop_found [of resolver 0 0 "[]" ls] l
  have found: "found = length (filter (dropped resolver) (enumerate 0 ls))"
    by simp
  have m: "dns_main resolver (Some ls) True =
           (lg @ [(INFO, ''Processed domains. Found '' @ str_nat found @
                         '' domains without NS records.'')], Some kept)"
    by (simp add: dns_main_def l)
  have d: "dropped resolver (i, raw) =
       (is_domain_line raw \<and> snd (check_domain (resolver i (strip raw)) (strip raw)))"
    by (cases "resolver i (strip raw)") (auto simp: dropped_def check_domain_def)
  have none: "map (\<lambda>p. strip (snd p) @ nl) (filter (\<lambda>p. \<not> dropped resolver p) (enumerate 0 ls))
              = map (\<lambda>raw. strip raw @ nl) ls"
    if "filter (dropped resolver) (enumerate 0 ls) = []"
  proof -
    from that have "filter (\<lambda>p. \<not> dropped resolver p) (enumerate 0 ls) = enumerate 0 ls"
      by (auto simp: filter_empty_conv filter_id_conv)
    moreover have "map (\<lambda>p. strip (snd p) @ nl) (enumerate 0 ls)
                   = map (\<lambda>raw. strip raw @ nl) (map snd (enumerate 0 ls))"
      by (simp only: map_map comp_def)
    ultimately show ?thesis
      by simp
  qed
  have some: "length kept < length ls" if "filter (dropped resolver) (enumerate 0 ls) \<noteq> []"
  proof -
    have "length (filter (\<lambda>p. \<not> dropped resolver p) (enumerate 0 ls))
          + length (filter (dropped resolver) (enumerate 0 ls)) = length (enumerate 0 ls)"
      using sum_length_filter_compl [of "dropped resolver" "enumerate 0 ls"] by simp
    moreover from that have "length (filter (dropped resolver) (enumerate 0 ls)) \<noteq> 0"
      by simp
    moreover have "length (enumerate 0 ls) = length ls"
      by simp
    ultimately have "length (filter (\<lambda>p. \<not> dropped resolver p) (enumerate 0 ls)) < length ls"
      by arith
    then show ?thesis
      by (simp add: kept)
  qed
  show ?thesis
    using d none some by (simp add: m kept found)
qed


section \<open>One deferred retry pass in the WHOIS check\<close>

text \<open>
  Claim C9.  In a run of the WHOIS check over the distinct domains of its list, the first
  loop looks every domain up once, in order.  A lookup that fails transiently (connection
  refused or timeout) gives the temporary-error result and nothing else does; such a
  domain gets no report line in the first loop and is put on the retry list.  Every other
  domain is reported in the first loop with the result of its lookup, and a lookup that
  failed in any other way is reported as not registered.  After the first loop, the retry
  block looks up the domains of the retry list, and only those, once each in the order
  in which they failed, and reports each with whatever the second lookup gives, a second
  temporary error included.  So a domain is looked up twice when its first lookup failed
  transiently, and once otherwise.
\<close>

theorem whois_single_deferred_retry:
  "queries (fst (whois_main service yielded)) = remove_duplicates yielded
   \<and> distinct (remove_duplicates yielded)
   \<and> set (remove_duplicates yielded) = set yielded
   \<and> queries (snd (whois_main service yielded)) = failed_subset service (remove_duplicates yielded)
   \<and> reports (fst (whois_main service yielded)) =
       map (\<lambda>(k, d). (d, snd (is_registered (service k d) d)))
           (filter (\<lambda>(k, d). \<not> transient (service k d)) (enumerate 0 (remove_duplicates yielded)))
   \<and> reports (snd (whois_main service yielded)) =
       map (\<lambda>(k, d). (d, snd (is_registered (service k d) d)))
           (enumerate (length (remove_duplicates yielded))
              (failed_subset service (remove_duplicates yielded)))
   \<and> (snd (is_registered reply domain) = IsNone) = transient reply
   \<and> (lookup_failed reply \<and> \<not> transient reply \<longrightarrow> snd (is_registered reply domain) = IsFalse)
   \<and> count_list (queries (fst (whois_main service yielded)) @
                   queries (snd (whois_main service yielded))) domain =
       (if domain \<in> set (failed_subset service (remove_duplicates yielded)) then 2
        else if domain \<in> set yielded then 1 else 0)"
proof -
  let ?ds = "remove_duplicates yielded"
  let ?fs = "failed_subset service ?ds"
  obtain ev retry where mp: "main_pass service 0 [] ?ds = (ev, retry)"
    by (cases "main_pass service 0 [] ?ds")
  from main_pass_eq [of service 0 "[]" ?ds] mp
  have q1: "queries ev = ?ds"
    and r1: "reports ev = map (\<lambda>(k, d). (d, snd (is_registered (service k d) d)))
           (filter (\<lambda>(k, d). \<not> transient (service k d)) (enumerate 0 ?ds))"
    and rt: "retry = ?fs"
    by (simp_all add: failed_subset_def)
  have wm: "whois_main service yielded =
            (ev, if ?fs \<noteq> [] then RetryHeader # retry_pass service (length ?ds) ?fs else [])"
    by (simp add: whois_main_def Let_def mp rt)
  have q2: "queries (snd (whois_main service yielded)) = ?fs"
    using retry_pass_eq [of service "length ?ds" ?fs] by (simp add: wm)
  have r2: "reports (snd (whois_main service yielded)) =
       map (\<lambda>(k, d). (d, snd (is_registered (service k d) d))) (enumerate (length ?ds) ?fs)"
    using retry_pass_eq [of service "length ?ds" ?fs] by (simp add: wm)
  have d: "distinct ?ds" and s: "set ?ds = set yielded"
    by (simp_all add: remove_duplicates_first_seen)
  have c: "count_list (?ds @ ?fs) domain =
       (if domain \<in> set ?fs then 2 else if domain \<in> set yielded then 1 else 0)"
    using distinct_failed_subset [of ?ds service] set_failed_subset [of service ?ds] d s
    by (auto simp: count_list_distinct)
  show ?thesis
    using q1 r1 q2 r2 d s c is_registered_None [of reply domain]
      is_registered_failed [of reply domain]
    by (simp add: wm)
qed

text \<open>The theorem at a list in which a domain comes twice, with a service that times out
  on its first query and knows no top-level domain afterwards.\<close>

theorem whois_single_deferred_retry_witness:
  "queries (fst (whois_main (\<lambda>n d. if n = 0 then TimeoutError else UnknownTld)
                            [''a.com'', ''b.com'', ''a.com''])) = [''a.com'', ''b.com'']
   \<and> queries (snd (whois_main (\<lambda>n d. if n = 0 then TimeoutError else UnknownTld)
                              [''a.com'', ''b.com'', ''a.com''])) = [''a.com'']
   \<and> reports (fst (whois_main (\<lambda>n d. if n = 0 then TimeoutError else UnknownTld)
                              [''a.com'', ''b.com'', ''a.com''])) = [(''b.com'', IsFalse)]
   \<and> reports (snd (whois_main (\<lambda>n d. if n = 0 then TimeoutError else UnknownTld)
                              [''a.com'', ''b.com'', ''a.com''])) = [(''a.com'', IsFalse)]
   \<and> lookup_failed UnknownTld \<and> \<not> transient UnknownTld
   \<and> snd (is_registered UnknownTld ''b.com'') = IsFalse"
proof -
  let ?service = "\<lambda>n d. if n = (0::nat) then TimeoutError else UnknownTld"
  let ?yielded = "[''a.com'', ''b.com'', ''a.com'']"
  have ds: "remove_duplicates ?yielded = [''a.com'', ''b.com'']"
    by code_simp
  have fs: "failed_subset ?service [''a.com'', ''b.com''] = [''a.com'']"
    by (simp add: failed_subset_def transient_def enumerate_eq_zip upt_rec)
  have h: "lookup_failed UnknownTld \<and> \<not> transient UnknownTld"
    by (simp add: lookup_failed_def transient_def)
  from whois_single_deferred_retry [of ?service ?yielded UnknownTld "''b.com''"] h
  show ?thesis
    by (simp add: ds fs transient_def enumerate_eq_zip upt_rec is_registered_def)
qed


section \<open>The strict checks\<close>

text \<open>
  Claim C7, as the claim states it, fails for the duplicate check: the check counts every
  non-blank line, comment and header lines too, so a file in which only a category header
  comes twice, and no domain does, is refused.
\<close>

theorem repeated_header_is_refused:
  "snd (check_duplicates ''pihole-google.txt'' (Some [''# Ads'', ''a.com'', ''# Ads'', ''b.com'']))
     = Inl (AssertionError (DuplicateDomain ''# Ads'' 2))
   \<and> distinct (domain_lines [''# Ads'', ''a.com'', ''# Ads'', ''b.com''])
   \<and> domain_lines [''# Ads'', ''a.com'', ''# Ads'', ''b.com''] = [''a.com'', ''b.com'']"
  by code_simp

text \<open>
  Claim C7, amended.  The strict duplicate check raises the integrity violation exactly
  when some non-blank line of the file, a domain line or a comment line alike, compared
  after stripping, occurs more than once; the violation names such a line and the number
  of its occurrences.  The forbidden-pattern check, with the configured forbidden
  substrings, raises the integrity violation exactly when some line of the file contains
  one of them; the violation then reports the number of the first such line, counted from
  one, that line stripped, and a forbidden substring it contains.  Otherwise each check
  ends without an error.
\<close>

theorem strict_checks:
  "(\<exists>v. snd (check_duplicates filepath (Some ls)) = Inl (AssertionError v))
     = (\<not> distinct (nonblank_lines ls))
   \<and> (snd (check_duplicates filepath (Some ls)) = Inr ()) = distinct (nonblank_lines ls)
   \<and> (snd (check_duplicates filepath (Some ls)) = Inl (AssertionError (DuplicateDomain x m))
        \<longrightarrow> m = count_list (nonblank_lines ls) x \<and> 1 < m)
   \<and> (\<exists>v. snd (check_regex_domains filepath (Some ls) forbidden_domains) = Inl (AssertionError v))
     = (\<exists>line \<in> set ls. \<exists>f \<in> set forbidden_domains. contains f line)
   \<and> (snd (check_regex_domains filepath (Some ls) forbidden_domains) = Inr ())
     = (\<not> (\<exists>line \<in> set ls. \<exists>f \<in> set forbidden_domains. contains f line))
   \<and> (snd (check_regex_domains filepath (Some ls) forbidden_domains)
          = Inl (AssertionError (ForbiddenDomain f n dm))
        \<longrightarrow> 1 \<le> n \<and> n \<le> length ls \<and> dm = strip (ls ! (n - 1))
            \<and> f \<in> set forbidden_domains \<and> contains f (ls ! (n - 1))
            \<and> (\<forall>k < n - 1. \<not> (\<exists>g \<in> set forbidden_domains. contains g (ls ! k))))"
proof -
  let ?nb = "nonblank_lines ls"
  let ?dups = "filter (\<lambda>x. count_list ?nb x > 1) (first_seen ?nb)"
  let ?bad = "\<lambda>l. \<exists>g \<in> set forbidden_domains. contains g l"
  have off: "offending forbidden_domains = ?bad"
    by (rule ext) (simp add: offending_configured)
  have a: "(\<exists>v. snd (check_duplicates filepath (Some ls)) = Inl (AssertionError v))
           = (\<not> distinct ?nb)"
    using no_duplicate_iff [of ?nb]
    by (cases ?dups) (simp_all add: check_duplicates_eq)
  have b: "(snd (check_duplicates filepath (Some ls)) = Inr ()) = distinct ?nb"
    using no_duplicate_iff [of ?nb]
    by (cases ?dups) (simp_all add: check_duplicates_eq)
  have c: "m = count_list ?nb x \<and> 1 < m"
    if "snd (check_duplicates filepath (Some ls)) = Inl (AssertionError (DuplicateDomain x m))"
  proof (cases ?dups)
    case Nil
    with that show ?thesis
      by (simp add: check_duplicates_eq)
  next
    case (Cons y ys)
    then have "y \<in> set ?dups"
      by simp
    then have "1 < count_list ?nb y"
      by simp
    with that Cons show ?thesis
      by (auto simp: check_duplicates_eq)
  qed
  have key: "(dropWhile (\<lambda>l. \<not> ?bad l) ls = []) = (\<not> (\<exists>line \<in> set ls. ?bad line))"
    by (auto simp: dropWhile_eq_Nil_conv)
  have d: "(\<exists>v. snd (check_regex_domains filepath (Some ls) forbidden_domains) = Inl (AssertionError v))
           = (\<exists>line \<in> set ls. ?bad line)"
    and e: "(snd (check_regex_domains filepath (Some ls) forbidden_domains) = Inr ())
           = (\<not> (\<exists>line \<in> set ls. ?bad line))"
  proof -
    show "(\<exists>v. snd (check_regex_domains filepath (Some ls) forbidden_domains) = Inl (AssertionError v))
           = (\<exists>line \<in> set ls. ?bad line)"
    proof (cases "dropWhile (\<lambda>l. \<not> ?bad l) ls")
      case Nil
      then have "snd (check_regex_domains filepath (Some ls) forbidden_domains) = Inr ()"
        by (simp add: check_regex_domains_eq off del: dropWhile_eq_Nil_conv)
      moreover from Nil key have "\<not> (\<exists>line \<in> set ls. ?bad line)"
        by blast
      ultimately show ?thesis
        by simp
    next
      case (Cons l rest)
      then have "\<exists>v. snd (check_regex_domains filepath (Some ls) forbidden_domains)
                     = Inl (AssertionError v)"
        by (simp add: check_regex_domains_eq off del: dropWhile_eq_Nil_conv)
      moreover from Cons key have "\<exists>line \<in> set ls. ?bad line"
        by (metis list.distinct(1))
      ultimately show ?thesis
        by blast
    qed
    show "(snd (check_regex_domains filepath (Some ls) forbidden_domains) = Inr ())
           = (\<not> (\<exists>line \<in> set ls. ?bad line))"
    proof (cases "dropWhile (\<lambda>l. \<not> ?bad l) ls")
      case Nil
      then have "snd (check_regex_domains filepath (Some ls) forbidden_domains) = Inr ()"
        by (simp add: check_regex_domains_eq off del: dropWhile_eq_Nil_conv)
      moreover from Nil key have "\<not> (\<exists>line \<in> set ls. ?bad line)"
        by blast
      ultimately show ?thesis
        by blast
    next
      case (Cons l rest)
      then have "snd (check_regex_domains filepath (Some ls) forbidden_domains) \<noteq> Inr ()"
        by (simp add: check_regex_domains_eq off del: dropWhile_eq_Nil_conv)
      moreover from Cons key have "\<exists>line \<in> set ls. ?bad line"
        by (metis list.distinct(1))
      ultimately show ?thesis
        by blast
    qed
  qed
  have f: "1 \<le> n \<and> n \<le> length ls \<and> dm = strip (ls ! (n - 1))
            \<and> f \<in> set forbidden_domains \<and> contains f (ls ! (n - 1))
            \<and> (\<forall>k < n - 1. \<not> ?bad (ls ! k))"
    if r: "snd (check_regex_domains filepath (Some ls) forbidden_domains)
          = Inl (AssertionError (ForbiddenDomain f n dm))"
  proof (cases "dropWhile (\<lambda>l. \<not> ?bad l) ls")
    case Nil
    with r show ?thesis
      by (simp add: check_regex_domains_eq off del: dropWhile_eq_Nil_conv)
  next
    case (Cons l rest)
    let ?n = "length (takeWhile (\<lambda>l. \<not> ?bad l) ls)"
    from r Cons have n: "n = 1 + ?n" and dm: "dm = strip l"
      and ff: "f = the (first_forbidden forbidden_domains (strip l))"
      by (auto simp: check_regex_domains_eq off simp del: dropWhile_eq_Nil_conv)
    note fo = first_offending [of ?bad ls l rest, OF Cons]
    from fo(3) have "offending forbidden_domains l"
      by (simp add: off)
    then obtain g where g: "first_forbidden forbidden_domains (strip l) = Some g"
      by (auto simp: offending_def)
    with ff have fg: "f = g"
      by simp
    from first_forbidden_Some [OF g] have "f \<in> set forbidden_domains" "contains f (strip l)"
      by (simp_all add: fg)
    moreover have "contains f (strip l) = contains f l"
      using \<open>f \<in> set forbidden_domains\<close>
      by (intro contains_strip) (auto simp: forbidden_domains_def isspace_def)
    ultimately show ?thesis
      using fo n dm by simp
  qed
  from a b c d e f show ?thesis
    by blast
qed

text \<open>The theorem at a file with a repeated domain and a line of the first forbidden
  pattern.\<close>

theorem strict_checks_witness:
  "snd (check_duplicates ''pihole-google.txt''
          (Some [''# Ads'', ''a.com'', ''x.l.google.com'', ''a.com '']))
     = Inl (AssertionError (DuplicateDomain ''a.com'' 2))
   \<and> count_list (nonblank_lines [''# Ads'', ''a.com'', ''x.l.google.com'', ''a.com '']) ''a.com'' = 2
   \<and> snd (check_regex_domains ''pihole-google.txt''
            (Some [''# Ads'', ''a.com'', ''x.l.google.com'', ''a.com '']) forbidden_domains)
     = Inl (AssertionError (ForbiddenDomain ''.l.google.com'' 3 ''x.l.google.com''))
   \<and> contains ''.l.google.com'' ([''# Ads'', ''a.com'', ''x.l.google.com'', ''a.com ''] ! (3 - 1))"
proof -
  let ?ls = "[''# Ads'', ''a.com'', ''x.l.google.com'', ''a.com '']"
  have a: "snd (check_duplicates ''pihole-google.txt'' (Some ?ls))
           = Inl (AssertionError (DuplicateDomain ''a.com'' 2))"
    by code_simp
  have b: "snd (check_regex_domains ''pihole-google.txt'' (Some ?ls) forbidden_domains)
           = Inl (AssertionError (ForbiddenDomain ''.l.google.com'' 3 ''x.l.google.com''))"
    by code_simp
  from strict_checks [of "''pihole-google.txt''" ?ls "''a.com''" 2 "''.l.google.com''" 3
      "''x.l.google.com''"] a b
  show ?thesis
    by simp
qed

end
